theory Spec2Isabelle
  imports Main "HOL-Library.Product_Lexorder" "HOL-Library.Sublist"
begin

section \<open>Consensus of transcripts by sequence alignment\<close>

text \<open>
  A shallow embedding of \<^verbatim>\<open>transcribe_consensus.py\<close>: \<^verbatim>\<open>align_two\<close>,
  \<^verbatim>\<open>consensus_two\<close> and \<^verbatim>\<open>consensus_three\<close>, together with the part of
  \<^verbatim>\<open>difflib.SequenceMatcher\<close> (CPython's \<^verbatim>\<open>Lib/difflib.py\<close>) that
  \<^verbatim>\<open>align_two\<close> runs: \<^verbatim>\<open>__chain_b\<close>, \<^verbatim>\<open>find_longest_match\<close>,
  \<^verbatim>\<open>get_matching_blocks\<close> and \<^verbatim>\<open>get_opcodes\<close>, as called by
  \<^verbatim>\<open>SequenceMatcher(None, seq1, seq2)\<close>: no junk predicate, \<^verbatim>\<open>autojunk\<close> on.

  A Python list may hold \<^verbatim>\<open>None\<close>, and \<^verbatim>\<open>align_two\<close> uses \<^verbatim>\<open>None\<close> as its gap
  marker. A list element is therefore a \<open>'a option\<close>: \<open>None\<close> is Python's \<^verbatim>\<open>None\<close> and
  \<open>Some w\<close> is the token \<open>w\<close>. A sequence is gap-free when \<open>None\<close> is not among its elements.
\<close>

type_synonym 'a token = "'a option"

subsection \<open>\<^verbatim>\<open>SequenceMatcher.__chain_b\<close>\<close>

text \<open>
  \<^verbatim>\<open>b2j\<close> maps each element of \<^verbatim>\<open>b\<close> to the increasing list of its positions. The
  junk set stays empty (\<^verbatim>\<open>isjunk\<close> is \<^verbatim>\<open>None\<close>). With \<^verbatim>\<open>autojunk\<close> and
  \<^verbatim>\<open>len(b) >= 200\<close>, every element with more than \<^verbatim>\<open>len(b) // 100 + 1\<close> positions is
  deleted from \<^verbatim>\<open>b2j\<close>.
\<close>

fun chain_b_loop :: "'e list \<Rightarrow> nat \<Rightarrow> ('e \<rightharpoonup> nat list) \<Rightarrow> ('e \<rightharpoonup> nat list)" where
  "chain_b_loop [] i b2j = b2j"
| "chain_b_loop (elt # rest) i b2j =
     chain_b_loop rest (i + 1)
       (b2j(elt \<mapsto> (case b2j elt of None \<Rightarrow> [] | Some indices \<Rightarrow> indices) @ [i]))"

definition chain_b :: "'e list \<Rightarrow> ('e \<rightharpoonup> nat list)" where
  "chain_b b =
     (let b2j = chain_b_loop b 0 Map.empty;
          n = length b
      in if n \<ge> 200
         then (let ntest = n div 100 + 1
               in (\<lambda>elt. case b2j elt of
                            None \<Rightarrow> None
                          | Some idxs \<Rightarrow> if length idxs > ntest then None else Some idxs))
         else b2j)"

definition isbjunk :: "'e \<Rightarrow> bool" where
  "isbjunk elt = False"

subsection \<open>\<^verbatim>\<open>SequenceMatcher.find_longest_match\<close>\<close>

text \<open>
  The triple \<open>(besti, bestj, bestsize)\<close> is the best match so far. The dictionary
  \<^verbatim>\<open>j2len\<close> has integer keys, since the code looks up \<^verbatim>\<open>j-1\<close>, which is \<open>-1\<close> for
  \<open>j = 0\<close> and then absent. Positions are natural numbers; \<^verbatim>\<open>i-k+1\<close> is written
  \<open>i + 1 - k\<close>; \<open>j2len_step_le\<close> below shows that \<open>k \<le> i + 1\<close> and \<open>k \<le> j + 1\<close>
  there, so the subtraction never truncates. The regions searched lie inside the two
  sequences (\<open>matching_loop_inv\<close>), so \<^verbatim>\<open>a[i]\<close> and \<^verbatim>\<open>b[j]\<close> are never read out of
  range.
\<close>

type_synonym block = "nat \<times> nat \<times> nat"

fun inner_loop ::
  "nat \<Rightarrow> nat \<Rightarrow> nat \<Rightarrow> (int \<rightharpoonup> nat) \<Rightarrow> nat list \<Rightarrow> (int \<rightharpoonup> nat) \<times> block \<Rightarrow> (int \<rightharpoonup> nat) \<times> block"
where
  "inner_loop i blo bhi j2len [] st = st"
| "inner_loop i blo bhi j2len (j # js) (newj2len, besti, bestj, bestsize) =
     (if j < blo then inner_loop i blo bhi j2len js (newj2len, besti, bestj, bestsize)
      else if j \<ge> bhi then (newj2len, besti, bestj, bestsize)
      else (let k = (case j2len (int j - 1) of None \<Rightarrow> 0 | Some v \<Rightarrow> v) + 1;
                newj2len' = newj2len(int j \<mapsto> k)
            in if k > bestsize
               then inner_loop i blo bhi j2len js (newj2len', i + 1 - k, j + 1 - k, k)
               else inner_loop i blo bhi j2len js (newj2len', besti, bestj, bestsize)))"

fun outer_loop ::
  "'e list \<Rightarrow> ('e \<rightharpoonup> nat list) \<Rightarrow> nat \<Rightarrow> nat \<Rightarrow> nat list \<Rightarrow> (int \<rightharpoonup> nat) \<times> block \<Rightarrow> block"
where
  "outer_loop a b2j blo bhi [] (j2len, best) = best"
| "outer_loop a b2j blo bhi (i # is) (j2len, best) =
     outer_loop a b2j blo bhi is
       (inner_loop i blo bhi j2len
          (case b2j (a ! i) of None \<Rightarrow> [] | Some idxs \<Rightarrow> idxs) (Map.empty, best))"

text \<open>
  The four \<^verbatim>\<open>while\<close> loops that extend the match; \<open>ok\<close> is the test on
  \<^verbatim>\<open>b[bestj-1]\<close> (or \<^verbatim>\<open>b[bestj+bestsize]\<close>): not junk in the first two loops,
  junk in the last two.
\<close>

function extend_left ::
  "'e list \<Rightarrow> 'e list \<Rightarrow> nat \<Rightarrow> nat \<Rightarrow> ('e \<Rightarrow> bool) \<Rightarrow> block \<Rightarrow> block"
where
  "extend_left a b alo blo ok (besti, bestj, bestsize) =
     (if besti > alo \<and> bestj > blo \<and> ok (b ! (bestj - 1)) \<and> a ! (besti - 1) = b ! (bestj - 1)
      then extend_left a b alo blo ok (besti - 1, bestj - 1, bestsize + 1)
      else (besti, bestj, bestsize))"
  by pat_completeness auto
termination
  by (relation "measure (\<lambda>(a, b, alo, blo, ok, besti, bestj, bestsize). besti)") auto

function extend_right ::
  "'e list \<Rightarrow> 'e list \<Rightarrow> nat \<Rightarrow> nat \<Rightarrow> ('e \<Rightarrow> bool) \<Rightarrow> block \<Rightarrow> block"
where
  "extend_right a b ahi bhi ok (besti, bestj, bestsize) =
     (if besti + bestsize < ahi \<and> bestj + bestsize < bhi \<and> ok (b ! (bestj + bestsize))
         \<and> a ! (besti + bestsize) = b ! (bestj + bestsize)
      then extend_right a b ahi bhi ok (besti, bestj, bestsize + 1)
      else (besti, bestj, bestsize))"
  by pat_completeness auto
termination
  by (relation "measure (\<lambda>(a, b, ahi, bhi, ok, besti, bestj, bestsize). ahi - (besti + bestsize))")
     auto

definition find_longest_match :: "'e list \<Rightarrow> 'e list \<Rightarrow> nat \<Rightarrow> nat \<Rightarrow> nat \<Rightarrow> nat \<Rightarrow> block" where
  "find_longest_match a b alo ahi blo bhi =
     (let best0 = outer_loop a (chain_b b) blo bhi [alo..<ahi] (Map.empty, alo, blo, 0);
          best1 = extend_left a b alo blo (\<lambda>elt. \<not> isbjunk elt) best0;
          best2 = extend_right a b ahi bhi (\<lambda>elt. \<not> isbjunk elt) best1;
          best3 = extend_left a b alo blo isbjunk best2;
          best4 = extend_right a b ahi bhi isbjunk best3
      in best4)"

subsection \<open>\<^verbatim>\<open>SequenceMatcher.get_matching_blocks\<close>\<close>

text \<open>
  The work list \<^verbatim>\<open>queue\<close> is a Python list used as a stack: \<^verbatim>\<open>queue.pop()\<close> takes
  its last element and \<^verbatim>\<open>queue.append\<close> adds one at the end. Here the head of the list
  is that last element. \<open>matching_loop\<close> is the \<^verbatim>\<open>while queue:\<close> loop; its termination
  is proved below from the bounds of \<open>find_longest_match\<close>.
\<close>

type_synonym region = "nat \<times> nat \<times> nat \<times> nat"

function matching_loop :: "'e list \<Rightarrow> 'e list \<Rightarrow> region list \<Rightarrow> block list \<Rightarrow> block list" where
  "matching_loop a b [] matching_blocks = matching_blocks"
| "matching_loop a b ((alo, ahi, blo, bhi) # queue) matching_blocks =
     (case find_longest_match a b alo ahi blo bhi of
        (i, j, k) \<Rightarrow>
          if k \<noteq> 0
          then matching_loop a b
                 ((if i + k < ahi \<and> j + k < bhi then [(i + k, ahi, j + k, bhi)] else [])
                  @ (if alo < i \<and> blo < j then [(alo, i, blo, j)] else [])
                  @ queue)
                 (matching_blocks @ [(i, j, k)])
          else matching_loop a b queue matching_blocks)"
  by pat_completeness auto

text \<open>
  The loop that collapses adjacent blocks: \<open>(i1, j1, k1)\<close> is the block being grown and
  \<open>non_adjacent\<close> the list built so far.
\<close>

fun collapse_loop :: "block \<Rightarrow> block list \<Rightarrow> block list \<Rightarrow> block \<times> block list" where
  "collapse_loop (i1, j1, k1) [] non_adjacent = ((i1, j1, k1), non_adjacent)"
| "collapse_loop (i1, j1, k1) ((i2, j2, k2) # rest) non_adjacent =
     (if i1 + k1 = i2 \<and> j1 + k1 = j2
      then collapse_loop (i1, j1, k1 + k2) rest non_adjacent
      else collapse_loop (i2, j2, k2) rest
             (if k1 \<noteq> 0 then non_adjacent @ [(i1, j1, k1)] else non_adjacent))"

definition get_matching_blocks :: "'e list \<Rightarrow> 'e list \<Rightarrow> block list" where
  "get_matching_blocks a b =
     (let la = length a; lb = length b;
          matching_blocks = sort (matching_loop a b [(0, la, 0, lb)] [])
      in case collapse_loop (0, 0, 0) matching_blocks [] of
           ((i1, j1, k1), non_adjacent) \<Rightarrow>
             (if k1 \<noteq> 0 then non_adjacent @ [(i1, j1, k1)] else non_adjacent) @ [(la, lb, 0)])"

subsection \<open>\<^verbatim>\<open>SequenceMatcher.get_opcodes\<close>\<close>

datatype tag = Equal | Replace | Delete | Insert

type_synonym opcode = "tag \<times> nat \<times> nat \<times> nat \<times> nat"

fun opcodes_loop :: "nat \<Rightarrow> nat \<Rightarrow> block list \<Rightarrow> opcode list \<Rightarrow> opcode list" where
  "opcodes_loop i j [] answer = answer"
| "opcodes_loop i j ((ai, bj, sz) # rest) answer =
     (let tag = (if i < ai \<and> j < bj then Some Replace
                 else if i < ai then Some Delete
                 else if j < bj then Some Insert
                 else None);
          answer1 = (case tag of Some t \<Rightarrow> answer @ [(t, i, ai, j, bj)] | None \<Rightarrow> answer);
          i' = ai + sz;
          j' = bj + sz;
          answer2 = (if sz \<noteq> 0 then answer1 @ [(Equal, ai, i', bj, j')] else answer1)
      in opcodes_loop i' j' rest answer2)"

definition get_opcodes :: "'e list \<Rightarrow> 'e list \<Rightarrow> opcode list" where
  "get_opcodes a b = opcodes_loop 0 0 (get_matching_blocks a b) []"

subsection \<open>\<^verbatim>\<open>align_two\<close>\<close>

text \<open>
  \<^verbatim>\<open>seq[i1:i2]\<close> with indices that are not negative: the elements from \<open>i1\<close> up to, not
  including, \<open>i2\<close>, clipped to the list. \<^verbatim>\<open>[None] * n\<close> is empty when \<open>n\<close> is not
  positive, as \<open>replicate\<close> is on a truncated difference.
\<close>

definition slice :: "'e list \<Rightarrow> nat \<Rightarrow> nat \<Rightarrow> 'e list" where
  "slice xs i1 i2 = drop i1 (take i2 xs)"

fun align_loop ::
  "'a token list \<Rightarrow> 'a token list \<Rightarrow> opcode list \<Rightarrow> 'a token list \<times> 'a token list
   \<Rightarrow> 'a token list \<times> 'a token list"
where
  "align_loop seq1 seq2 [] (aligned1, aligned2) = (aligned1, aligned2)"
| "align_loop seq1 seq2 ((tg, i1, i2, j1, j2) # ops) (aligned1, aligned2) =
     (case tg of
        Equal \<Rightarrow>
          align_loop seq1 seq2 ops (aligned1 @ slice seq1 i1 i2, aligned2 @ slice seq2 j1 j2)
      | Replace \<Rightarrow>
          (let tokens1 = slice seq1 i1 i2;
               tokens2 = slice seq2 j1 j2;
               L = max (length tokens1) (length tokens2);
               tokens1' = tokens1 @ replicate (L - length tokens1) None;
               tokens2' = tokens2 @ replicate (L - length tokens2) None
           in align_loop seq1 seq2 ops (aligned1 @ tokens1', aligned2 @ tokens2'))
      | Delete \<Rightarrow>
          align_loop seq1 seq2 ops (aligned1 @ slice seq1 i1 i2, aligned2 @ replicate (i2 - i1) None)
      | Insert \<Rightarrow>
          align_loop seq1 seq2 ops (aligned1 @ replicate (j2 - j1) None, aligned2 @ slice seq2 j1 j2))"

definition align_two :: "'a token list \<Rightarrow> 'a token list \<Rightarrow> 'a token list \<times> 'a token list" where
  "align_two seq1 seq2 = align_loop seq1 seq2 (get_opcodes seq1 seq2) ([], [])"

subsection \<open>\<^verbatim>\<open>consensus_two\<close> and \<^verbatim>\<open>consensus_three\<close>\<close>

text \<open>
  What the functions print is returned with their result, one entry for each call of
  \<^verbatim>\<open>print\<close>. \<open>Mismatch idx t1 t2\<close> is the line
  \<^verbatim>\<open>f"Column {idx} mismatch: '{t1}' vs '{t2}'; choosing '{t1}'"\<close>, kept as the three
  values it interpolates; \<open>Text s\<close> is a fixed line.

  \<^verbatim>\<open>consensus_three\<close> takes exactly three sequences. The source has no function over a
  list of sequences, no check of their number and no \<^verbatim>\<open>raise\<close>.
\<close>

datatype 'a printed = Text string | Mismatch nat "'a token" "'a token"

fun consensus_loop ::
  "nat \<Rightarrow> ('a token \<times> 'a token) list \<Rightarrow> 'a token list \<times> 'a printed list
   \<Rightarrow> 'a token list \<times> 'a printed list"
where
  "consensus_loop idx [] (consensus, out) = (consensus, out)"
| "consensus_loop idx ((t1, t2) # cols) (consensus, out) =
     (if t1 = None \<and> t2 = None then consensus_loop (idx + 1) cols (consensus, out)
      else if t1 = None then consensus_loop (idx + 1) cols (consensus @ [t2], out)
      else if t2 = None then consensus_loop (idx + 1) cols (consensus @ [t1], out)
      else if t1 = t2 then consensus_loop (idx + 1) cols (consensus @ [t1], out)
      else consensus_loop (idx + 1) cols (consensus @ [t1], out @ [Mismatch idx t1 t2]))"

definition consensus_two :: "'a token list \<Rightarrow> 'a token list \<Rightarrow> 'a token list \<times> 'a printed list" where
  "consensus_two seq1 seq2 =
     (case align_two seq1 seq2 of
        (aligned1, aligned2) \<Rightarrow> consensus_loop 0 (zip aligned1 aligned2) ([], []))"

definition consensus_three ::
  "'a token list \<Rightarrow> 'a token list \<Rightarrow> 'a token list \<Rightarrow> 'a token list \<times> 'a printed list"
where
  "consensus_three seq1 seq2 seq3 =
     (let out0 = [Text ''Merging first two transcripts...''] in
      case consensus_two seq1 seq2 of
        (cons12, out1) \<Rightarrow>
          (let out2 = [Text ''Merging consensus of first two with the third transcript...''] in
           case consensus_two cons12 seq3 of
             (final_consensus, out3) \<Rightarrow> (final_consensus, out0 @ out1 @ out2 @ out3)))"

section \<open>Auxiliary definitions\<close>

subsection \<open>Invariants of \<open>find_longest_match\<close>\<close>

text \<open>
  The invariants of \<open>find_longest_match\<close>: every length stored in \<^verbatim>\<open>j2len\<close> is at most
  the number \<open>n\<close> of rows read so far and reaches back no further than \<open>blo\<close>; the best
  match lies inside the region, ending no later than \<open>tp\<close>.
\<close>

definition inv_j2len :: "nat \<Rightarrow> nat \<Rightarrow> (int \<rightharpoonup> nat) \<Rightarrow> bool" where
  "inv_j2len blo n j2len = (\<forall>q v. j2len q = Some v \<longrightarrow> v \<le> n \<and> int v \<le> q - int blo + 1)"

definition inv_best :: "nat \<Rightarrow> nat \<Rightarrow> nat \<Rightarrow> nat \<Rightarrow> block \<Rightarrow> bool" where
  "inv_best alo blo bhi tp best =
     (case best of (besti, bestj, bestsize) \<Rightarrow>
        alo \<le> besti \<and> besti + bestsize \<le> tp \<and> blo \<le> bestj \<and> bestj + bestsize \<le> max blo bhi)"

subsection \<open>Regions and blocks of the work-list loop\<close>

text \<open>
  A block \<open>(i, j, k)\<close> covers the region \<open>[i, i + k) \<times> [j, j + k)\<close>. Two regions are
  compatible when one lies wholly before the other in both sequences. The loop keeps
  every region of the queue inside the sequences, and all blocks found and regions
  waiting pairwise compatible.
\<close>

fun brect :: "block \<Rightarrow> region" where
  "brect (i, j, k) = (i, i + k, j, j + k)"

fun sep :: "region \<Rightarrow> region \<Rightarrow> bool" where
  "sep (alo, ahi, blo, bhi) (alo', ahi', blo', bhi') = (ahi \<le> alo' \<and> bhi \<le> blo')"

definition compat :: "region \<Rightarrow> region \<Rightarrow> bool" where
  "compat r r' = (sep r r' \<or> sep r' r)"

fun inside :: "region \<Rightarrow> region \<Rightarrow> bool" where
  "inside (alo, ahi, blo, bhi) (alo', ahi', blo', bhi') =
     (alo' \<le> alo \<and> ahi \<le> ahi' \<and> blo' \<le> blo \<and> bhi \<le> bhi')"

definition ml_inv :: "nat \<Rightarrow> nat \<Rightarrow> region list \<Rightarrow> block list \<Rightarrow> bool" where
  "ml_inv la lb queue mbs =
     (list_all (\<lambda>(alo, ahi, blo, bhi). alo \<le> ahi \<and> ahi \<le> la \<and> blo \<le> bhi \<and> bhi \<le> lb) queue
      \<and> list_all (\<lambda>(i, j, k). 0 < k \<and> i + k \<le> la \<and> j + k \<le> lb) mbs
      \<and> sorted_wrt compat (map brect mbs @ queue))"

subsection \<open>Chains of blocks and of opcodes\<close>

text \<open>
  A chain from \<open>(i, j)\<close>: each block starts at or after the end of the one before, in
  both sequences, and ends inside them; a full chain ends exactly at \<open>(la, lb)\<close>.
  \<open>collapse cur bs\<close> is the result of the collapsing loop with the last block added.
  \<open>ops_chain\<close> says that a list of opcodes tiles \<open>[i, la)\<close> and \<open>[j, lb)\<close> without
  gap or overlap, each opcode with the shape its tag promises. \<open>opcode_columns\<close> is
  what one opcode adds to the two aligned lists, \<open>columns1\<close> and \<open>columns2\<close> what a
  list of opcodes adds.
\<close>

fun chain :: "nat \<Rightarrow> nat \<Rightarrow> nat \<Rightarrow> nat \<Rightarrow> block list \<Rightarrow> bool" where
  "chain la lb i j [] = (i \<le> la \<and> j \<le> lb)"
| "chain la lb i j ((ai, bj, sz) # bs) = (i \<le> ai \<and> j \<le> bj \<and> chain la lb (ai + sz) (bj + sz) bs)"

fun full_chain :: "nat \<Rightarrow> nat \<Rightarrow> nat \<Rightarrow> nat \<Rightarrow> block list \<Rightarrow> bool" where
  "full_chain la lb i j [] = (i = la \<and> j = lb)"
| "full_chain la lb i j ((ai, bj, sz) # bs) =
     (i \<le> ai \<and> j \<le> bj \<and> full_chain la lb (ai + sz) (bj + sz) bs)"

definition collapse :: "block \<Rightarrow> block list \<Rightarrow> block list" where
  "collapse cur bs =
     (case collapse_loop cur bs [] of
        ((i1, j1, k1), non_adjacent) \<Rightarrow>
          if k1 \<noteq> 0 then non_adjacent @ [(i1, j1, k1)] else non_adjacent)"

fun ops_chain :: "nat \<Rightarrow> nat \<Rightarrow> nat \<Rightarrow> nat \<Rightarrow> opcode list \<Rightarrow> bool" where
  "ops_chain la lb i j [] = (i = la \<and> j = lb)"
| "ops_chain la lb i j ((tg, i1, i2, j1, j2) # ops) =
     (i1 = i \<and> j1 = j \<and> i1 \<le> i2 \<and> i2 \<le> la \<and> j1 \<le> j2 \<and> j2 \<le> lb
      \<and> (case tg of
            Equal \<Rightarrow> i2 - i1 = j2 - j1
          | Replace \<Rightarrow> i1 < i2 \<and> j1 < j2
          | Delete \<Rightarrow> i1 < i2 \<and> j1 = j2
          | Insert \<Rightarrow> i1 = i2 \<and> j1 < j2)
      \<and> ops_chain la lb i2 j2 ops)"

fun opcode_columns :: "'a token list \<Rightarrow> 'a token list \<Rightarrow> opcode \<Rightarrow> 'a token list \<times> 'a token list" where
  "opcode_columns seq1 seq2 (tg, i1, i2, j1, j2) =
     (case tg of
        Equal \<Rightarrow> (slice seq1 i1 i2, slice seq2 j1 j2)
      | Replace \<Rightarrow>
          (slice seq1 i1 i2
             @ replicate (max (length (slice seq1 i1 i2)) (length (slice seq2 j1 j2))
                          - length (slice seq1 i1 i2)) None,
           slice seq2 j1 j2
             @ replicate (max (length (slice seq1 i1 i2)) (length (slice seq2 j1 j2))
                          - length (slice seq2 j1 j2)) None)
      | Delete \<Rightarrow> (slice seq1 i1 i2, replicate (i2 - i1) None)
      | Insert \<Rightarrow> (replicate (j2 - j1) None, slice seq2 j1 j2))"

text \<open>
  The words of the claims: a sequence is gap-free when it does not hold \<open>None\<close>;
  \<open>remove_gaps\<close> drops the gap markers of an aligned list.
\<close>

definition gap_free :: "'a token list \<Rightarrow> bool" where
  "gap_free xs = (None \<notin> set xs)"

definition remove_gaps :: "'a token list \<Rightarrow> 'a token list" where
  "remove_gaps xs = filter (\<lambda>t. t \<noteq> None) xs"

definition columns1 :: "'a token list \<Rightarrow> 'a token list \<Rightarrow> opcode list \<Rightarrow> 'a token list" where
  "columns1 seq1 seq2 ops = concat (map (\<lambda>op. fst (opcode_columns seq1 seq2 op)) ops)"

definition columns2 :: "'a token list \<Rightarrow> 'a token list \<Rightarrow> opcode list \<Rightarrow> 'a token list" where
  "columns2 seq1 seq2 ops = concat (map (\<lambda>op. snd (opcode_columns seq1 seq2 op)) ops)"

subsection \<open>Columns of the consensus loop\<close>

text \<open>
  What one column adds to the consensus and to the printed lines, and the position in the
  consensus of the token of column \<open>idx\<close>: the number of earlier columns that are not
  skipped.
\<close>

fun column_output :: "'a token \<times> 'a token \<Rightarrow> 'a token list" where
  "column_output (t1, t2) =
     (if t1 = None \<and> t2 = None then [] else if t1 = None then [t2] else [t1])"

fun column_printed :: "nat \<Rightarrow> 'a token \<times> 'a token \<Rightarrow> 'a printed list" where
  "column_printed idx (t1, t2) =
     (if t1 \<noteq> None \<and> t2 \<noteq> None \<and> t1 \<noteq> t2 then [Mismatch idx t1 t2] else [])"

fun printed_from :: "nat \<Rightarrow> ('a token \<times> 'a token) list \<Rightarrow> 'a printed list" where
  "printed_from idx [] = []"
| "printed_from idx (c # cols) = column_printed idx c @ printed_from (idx + 1) cols"

definition emitted_before :: "('a token \<times> 'a token) list \<Rightarrow> nat \<Rightarrow> nat" where
  "emitted_before cols idx =
     length (filter (\<lambda>(t1, t2). \<not> (t1 = None \<and> t2 = None)) (take idx cols))"

subsection \<open>Positions of an element and runs of keys\<close>

text \<open>
  \<open>positions x b i\<close> lists the positions of \<open>x\<close> in \<open>b\<close>, counted from \<open>i\<close>. \<open>run a r\<close>
  counts the consecutive positions ending at \<open>r\<close> whose elements are keys of
  \<^verbatim>\<open>b2j\<close>; the \<open>diag\<close> predicates are the invariants of \<open>find_longest_match\<close> when
  both sequences are \<open>a\<close>.
\<close>

fun positions :: "'e \<Rightarrow> 'e list \<Rightarrow> nat \<Rightarrow> nat list" where
  "positions x [] i = []"
| "positions x (y # ys) i = (if y = x then [i] else []) @ positions x ys (i + 1)"

fun run :: "'e list \<Rightarrow> nat \<Rightarrow> nat" where
  "run a 0 = (if chain_b a (a ! 0) = None then 0 else 1)"
| "run a (Suc r) = (if chain_b a (a ! Suc r) = None then 0 else run a r + 1)"

definition run_before :: "'e list \<Rightarrow> nat \<Rightarrow> nat" where
  "run_before a r = (case r of 0 \<Rightarrow> 0 | Suc r' \<Rightarrow> run a r')"

definition diag_j2len :: "'e list \<Rightarrow> nat \<Rightarrow> (int \<rightharpoonup> nat) \<Rightarrow> bool" where
  "diag_j2len a r j2len =
     ((\<forall>q v. j2len q = Some v \<longrightarrow> 0 \<le> q \<and> v \<le> run a (nat q) \<and> v \<le> run_before a r)
      \<and> (case j2len (int r - 1) of None \<Rightarrow> run_before a r = 0 | Some v \<Rightarrow> v = run_before a r))"

definition diag_new :: "'e list \<Rightarrow> nat \<Rightarrow> (int \<rightharpoonup> nat) \<Rightarrow> bool" where
  "diag_new a r newj2len =
     (\<forall>q v. newj2len q = Some v \<longrightarrow> 0 \<le> q \<and> v \<le> run a (nat q) \<and> v \<le> run a r)"

definition diag_best :: "'e list \<Rightarrow> nat \<Rightarrow> block \<Rightarrow> bool" where
  "diag_best a r best =
     (case best of (besti, bestj, bestsize) \<Rightarrow> besti = bestj \<and> (\<forall>r'<r. run a r' \<le> bestsize))"

section \<open>Bounds of \<open>find_longest_match\<close> and termination of the work-list loop\<close>

declare extend_left.simps [simp del] extend_right.simps [simp del]

lemma j2len_step_le:
  assumes "inv_j2len blo (i - alo) j2len" "alo \<le> i" "blo \<le> j"
  shows "(case j2len (int j - 1) of None \<Rightarrow> 0 | Some v \<Rightarrow> v) + 1 \<le> i + 1 - alo
         \<and> (case j2len (int j - 1) of None \<Rightarrow> 0 | Some v \<Rightarrow> v) + 1 \<le> j + 1 - blo"
  using assms unfolding inv_j2len_def by (fastforce split: option.splits)

lemma inner_loop_bounds:
  assumes "inv_j2len blo (i - alo) j2len" "alo \<le> i"
    and "inv_j2len blo (i + 1 - alo) newj2len" "inv_best alo blo bhi (i + 1) best"
    and "inner_loop i blo bhi j2len js (newj2len, best) = (newj2len', best')"
  shows "inv_j2len blo (i + 1 - alo) newj2len' \<and> inv_best alo blo bhi (i + 1) best'"
  using assms
proof (induction js arbitrary: newj2len best)
  case Nil
  then show ?case by simp
next
  case (Cons j js)
  obtain bi bj bs where best: "best = (bi, bj, bs)" by (cases best) auto
  show ?case
  proof (cases "j < blo")
    case True
    with Cons best show ?thesis by simp
  next
    case nlo: False
    show ?thesis
    proof (cases "j \<ge> bhi")
      case True
      with Cons nlo best show ?thesis by simp
    next
      case False
      define k where "k = (case j2len (int j - 1) of None \<Rightarrow> 0 | Some v \<Rightarrow> v) + 1"
      have kb: "k \<le> i + 1 - alo \<and> k \<le> j + 1 - blo"
        using Cons.prems(1,2) nlo unfolding k_def inv_j2len_def
        by (fastforce split: option.splits)
      have n1: "inv_j2len blo (i + 1 - alo) (newj2len(int j \<mapsto> k))"
        using Cons.prems(3) kb nlo unfolding inv_j2len_def by auto
      have n2: "inv_best alo blo bhi (i + 1) (i + 1 - k, j + 1 - k, k)"
        using kb nlo False Cons.prems(2) unfolding inv_best_def by auto
      show ?thesis
      proof (cases "k > bs")
        case True
        with Cons.prems(5) nlo False best
        have "inner_loop i blo bhi j2len js (newj2len(int j \<mapsto> k), i + 1 - k, j + 1 - k, k) = (newj2len', best')"
          by (simp add: k_def Let_def)
        from Cons.IH[OF Cons.prems(1,2) n1 n2 this] show ?thesis .
      next
        case nb: False
        with Cons.prems(5) nlo False best
        have "inner_loop i blo bhi j2len js (newj2len(int j \<mapsto> k), best) = (newj2len', best')"
          by (simp add: k_def Let_def)
        from Cons.IH[OF Cons.prems(1,2) n1 Cons.prems(4) this] show ?thesis .
      qed
    qed
  qed
qed

lemma inv_best_mono: "inv_best alo blo bhi t best \<Longrightarrow> t \<le> t' \<Longrightarrow> inv_best alo blo bhi t' best"
  by (auto simp: inv_best_def)

lemma inv_j2len_empty: "inv_j2len blo n Map.empty"
  by (simp add: inv_j2len_def)

lemma outer_loop_bounds:
  assumes "inv_j2len blo (i - alo) j2len" "alo \<le> i" "inv_best alo blo bhi i best"
  shows "inv_best alo blo bhi (max i ahi) (outer_loop a b2j blo bhi [i..<ahi] (j2len, best))"
  using assms
proof (induction "ahi - i" arbitrary: i j2len best)
  case 0
  then show ?case by (simp add: max_def)
next
  case (Suc n)
  then have lt: "i < ahi" by simp
  obtain new best' where il: "inner_loop i blo bhi j2len
          (case b2j (a ! i) of None \<Rightarrow> [] | Some idxs \<Rightarrow> idxs) (Map.empty, best) = (new, best')"
    by (cases "inner_loop i blo bhi j2len
          (case b2j (a ! i) of None \<Rightarrow> [] | Some idxs \<Rightarrow> idxs) (Map.empty, best)") auto
  have "inv_j2len blo (i + 1 - alo) new \<and> inv_best alo blo bhi (i + 1) best'"
    by (rule inner_loop_bounds[OF Suc.prems(1,2) inv_j2len_empty inv_best_mono[OF Suc.prems(3)] il]) simp
  moreover have "n = ahi - Suc i" using Suc.hyps(2) by simp
  ultimately have "inv_best alo blo bhi (max (Suc i) ahi) (outer_loop a b2j blo bhi [Suc i..<ahi] (new, best'))"
    using Suc.hyps(1)[of "Suc i" new best'] Suc.prems(2) by simp
  then show ?case using lt il by (simp add: upt_conv_Cons max_def)
qed

lemma extend_left_bounds:
  "inv_best alo blo bhi tp best \<Longrightarrow> inv_best alo blo bhi tp (extend_left a b alo blo ok best)"
proof (induction a b alo blo ok best rule: extend_left.induct)
  case (1 a b alo blo ok besti bestj bestsize)
  show ?case
  proof (cases "besti > alo \<and> bestj > blo \<and> ok (b ! (bestj - 1)) \<and> a ! (besti - 1) = b ! (bestj - 1)")
    case True
    have "inv_best alo blo bhi tp (besti - 1, bestj - 1, bestsize + 1)"
      using 1(2) True by (auto simp: inv_best_def)
    from 1(1)[OF True this] True show ?thesis
      by (subst extend_left.simps) simp
  next
    case False
    then show ?thesis using 1(2) by (subst extend_left.simps) auto
  qed
qed

lemma extend_right_bounds:
  "inv_best alo blo bhi (max alo ahi) best \<Longrightarrow>
   inv_best alo blo bhi (max alo ahi) (extend_right a b ahi bhi ok best)"
proof (induction a b ahi bhi ok best rule: extend_right.induct)
  case (1 a b ahi bhi ok besti bestj bestsize)
  show ?case
  proof (cases "besti + bestsize < ahi \<and> bestj + bestsize < bhi \<and> ok (b ! (bestj + bestsize))
         \<and> a ! (besti + bestsize) = b ! (bestj + bestsize)")
    case True
    have "inv_best alo blo bhi (max alo ahi) (besti, bestj, bestsize + 1)"
      using 1(2) True by (auto simp: inv_best_def)
    from 1(1)[OF True this] True show ?thesis
      by (subst extend_right.simps) simp
  next
    case False
    then show ?thesis using 1(2) by (subst extend_right.simps) auto
  qed
qed

lemma find_longest_match_inv:
  "inv_best alo blo bhi (max alo ahi) (find_longest_match a b alo ahi blo bhi)"
  unfolding find_longest_match_def Let_def
  by (intro extend_right_bounds extend_left_bounds outer_loop_bounds)
     (simp_all add: inv_j2len_empty inv_best_def)

lemma find_longest_match_bounds:
  assumes "find_longest_match a b alo ahi blo bhi = (i, j, k)"
  shows "alo \<le> i \<and> i + k \<le> max alo ahi \<and> blo \<le> j \<and> j + k \<le> max blo bhi"
  using find_longest_match_inv[of alo blo bhi ahi a b] assms by (simp add: inv_best_def)

termination matching_loop
proof (relation "measure (\<lambda>(a, b, queue, mbs). (\<Sum>(alo, ahi, blo, bhi)\<leftarrow>queue. 2 * (ahi - alo) + 1))",
    goal_cases)
  case 1
  show ?case by simp
next
  case (2 a b alo ahi blo bhi queue matching_blocks x y xa ya)
  then have "find_longest_match a b alo ahi blo bhi = (x, xa, ya)" by simp
  from find_longest_match_bounds[OF this] \<open>ya \<noteq> 0\<close>
  have "alo \<le> x" "x + ya \<le> ahi" by (auto simp: max_def split: if_splits)
  with \<open>ya \<noteq> 0\<close> show ?case by (simp, arith)
next
  case 3
  show ?case by simp
qed

section \<open>The work-list loop keeps blocks and regions apart\<close>

lemma compat_inside: "compat r y \<Longrightarrow> inside r' r \<Longrightarrow> compat r' y"
  by (cases r; cases r'; cases y) (auto simp: compat_def)

lemma compat_sym: "compat r y \<Longrightarrow> compat y r"
  by (auto simp: compat_def)

lemma sorted_wrt_replace:
  assumes "sorted_wrt compat (xs @ r # ys)" "sorted_wrt compat zs" "\<forall>z\<in>set zs. inside z r"
  shows "sorted_wrt compat (xs @ zs @ ys)"
proof -
  from assms(1) have xs: "sorted_wrt compat xs" and ys: "sorted_wrt compat ys"
    and xy: "\<forall>x\<in>set xs. \<forall>y\<in>set ys. compat x y"
    and xr: "\<forall>x\<in>set xs. compat x r" and ry: "\<forall>y\<in>set ys. compat r y"
    by (auto simp: sorted_wrt_append)
  have "\<forall>x\<in>set xs. \<forall>z\<in>set zs. compat x z"
    using xr assms(3) by (meson compat_inside compat_sym)
  moreover have "\<forall>z\<in>set zs. \<forall>y\<in>set ys. compat z y"
    using ry assms(3) by (meson compat_inside)
  ultimately show ?thesis
    using xs ys xy assms(2) by (auto simp: sorted_wrt_append)
qed

lemma ml_inv_step:
  assumes inv: "ml_inv la lb ((alo, ahi, blo, bhi) # queue) mbs"
    and flm: "find_longest_match a b alo ahi blo bhi = (i, j, k)" and k: "k \<noteq> 0"
  shows "ml_inv la lb
           ((if i + k < ahi \<and> j + k < bhi then [(i + k, ahi, j + k, bhi)] else [])
            @ (if alo < i \<and> blo < j then [(alo, i, blo, j)] else []) @ queue)
           (mbs @ [(i, j, k)])"
proof -
  from inv have r: "alo \<le> ahi" "ahi \<le> la" "blo \<le> bhi" "bhi \<le> lb"
    and q: "list_all (\<lambda>(alo, ahi, blo, bhi). alo \<le> ahi \<and> ahi \<le> la \<and> blo \<le> bhi \<and> bhi \<le> lb) queue"
    and m: "list_all (\<lambda>(i, j, k). 0 < k \<and> i + k \<le> la \<and> j + k \<le> lb) mbs"
    and s: "sorted_wrt compat (map brect mbs @ (alo, ahi, blo, bhi) # queue)"
    by (auto simp: ml_inv_def)
  from find_longest_match_bounds[OF flm] r
  have b: "alo \<le> i" "i + k \<le> ahi" "blo \<le> j" "j + k \<le> bhi" by (auto simp: max_def)
  let ?zs = "brect (i, j, k) # (if i + k < ahi \<and> j + k < bhi then [(i + k, ahi, j + k, bhi)] else [])
            @ (if alo < i \<and> blo < j then [(alo, i, blo, j)] else [])"
  have zs: "sorted_wrt compat ?zs" by (auto simp: compat_def)
  have ins: "\<forall>z\<in>set ?zs. inside z (alo, ahi, blo, bhi)" using b by auto
  have "sorted_wrt compat (map brect mbs @ ?zs @ queue)"
    by (rule sorted_wrt_replace[OF s zs ins])
  then have "sorted_wrt compat (map brect (mbs @ [(i, j, k)]) @
            ((if i + k < ahi \<and> j + k < bhi then [(i + k, ahi, j + k, bhi)] else [])
            @ (if alo < i \<and> blo < j then [(alo, i, blo, j)] else []) @ queue))"
    by simp
  moreover have "list_all (\<lambda>(alo, ahi, blo, bhi). alo \<le> ahi \<and> ahi \<le> la \<and> blo \<le> bhi \<and> bhi \<le> lb)
      ((if i + k < ahi \<and> j + k < bhi then [(i + k, ahi, j + k, bhi)] else [])
            @ (if alo < i \<and> blo < j then [(alo, i, blo, j)] else []) @ queue)"
    using q r b by auto
  moreover have "list_all (\<lambda>(i, j, k). 0 < k \<and> i + k \<le> la \<and> j + k \<le> lb) (mbs @ [(i, j, k)])"
    using m r b k by auto
  ultimately show ?thesis unfolding ml_inv_def by blast
qed

lemma ml_inv_skip:
  "ml_inv la lb (r # queue) mbs \<Longrightarrow> ml_inv la lb queue mbs"
  by (auto simp: ml_inv_def sorted_wrt_append)

lemma matching_loop_inv:
  "ml_inv la lb queue mbs \<Longrightarrow> ml_inv la lb [] (matching_loop a b queue mbs)"
proof (induction a b queue mbs rule: matching_loop.induct)
  case (1 a b matching_blocks)
  then show ?case by simp
next
  case (2 a b alo ahi blo bhi queue matching_blocks)
  obtain i j k where flm: "find_longest_match a b alo ahi blo bhi = (i, j, k)"
    by (cases "find_longest_match a b alo ahi blo bhi") auto
  show ?case
  proof (cases "k = 0")
    case True
    with 2(2)[OF flm[symmetric] refl] flm ml_inv_skip[OF 2(3)] show ?thesis by simp
  next
    case False
    with 2(1)[OF flm[symmetric] refl False ml_inv_step[OF 2(3) flm False]] flm show ?thesis by simp
  qed
qed

section \<open>The sorted, collapsed blocks form a chain\<close>

declare matching_loop.simps [simp del]


lemma sorted_wrt_distinct:
  "sorted_wrt P xs \<Longrightarrow> \<forall>x\<in>set xs. \<not> P x x \<Longrightarrow> distinct xs"
  by (induction xs) auto

lemma sorted_wrt_pairs:
  "sorted_wrt P xs \<Longrightarrow> x \<in> set xs \<Longrightarrow> y \<in> set xs \<Longrightarrow> x \<noteq> y \<Longrightarrow> P x y \<or> P y x"
  by (induction xs) auto

lemma pairs_sorted_wrt:
  "distinct xs \<Longrightarrow> \<forall>x\<in>set xs. \<forall>y\<in>set xs. x \<noteq> y \<longrightarrow> P x y \<Longrightarrow> sorted_wrt P xs"
  by (induction xs) auto

lemma compat_lt_sep:
  fixes x y :: block
  assumes "x < y" "compat (brect x) (brect y)" "0 < snd (snd y)"
  shows "sep (brect x) (brect y)"
proof -
  obtain xi xj xk where x: "x = (xi, xj, xk)" by (cases x)
  obtain yi yj yk where y: "y = (yi, yj, yk)" by (cases y)
  from assms(1) have "xi \<le> yi" unfolding x y by auto
  moreover from assms(3) have "0 < yk" unfolding y by simp
  ultimately show ?thesis using assms(2) unfolding x y compat_def by auto
qed

lemma compat_irrefl:
  fixes x :: block
  assumes "0 < snd (snd x)"
  shows "\<not> compat (brect x) (brect x)"
proof -
  obtain xi xj xk where x: "x = (xi, xj, xk)" by (cases x)
  from assms show ?thesis unfolding x compat_def by simp
qed

lemma blocks_sorted_sep:
  fixes mbs :: "block list"
  assumes c: "sorted_wrt compat (map brect mbs)"
    and pos: "\<forall>x\<in>set mbs. 0 < snd (snd x)"
  shows "sorted_wrt (\<lambda>x y. sep (brect x) (brect y)) (sort mbs)"
proof -
  let ?C = "\<lambda>x y. compat (brect x) (brect y)"
  from c have c': "sorted_wrt ?C mbs" by (simp add: sorted_wrt_map)
  have irr: "\<forall>x\<in>set mbs. \<not> ?C x x"
    using pos compat_irrefl by blast
  from sorted_wrt_distinct[OF c' irr] have d: "distinct mbs" .
  have lt: "sorted_wrt (<) (sort mbs)" using d by (simp add: strict_sorted_iff)
  show ?thesis
  proof (rule sorted_wrt_mono_rel[OF _ lt])
    fix x y :: block
    assume xy: "x \<in> set (sort mbs)" "y \<in> set (sort mbs)" "x < y"
    then have m: "x \<in> set mbs" "y \<in> set mbs" "x \<noteq> y" by auto
    from sorted_wrt_pairs[OF c' m] have "?C x y" by (auto intro: compat_sym)
    from bspec[OF pos m(2)] have "0 < snd (snd y)" .
    with compat_lt_sep[OF xy(3) \<open>?C x y\<close>] show "sep (brect x) (brect y)" .
  qed
qed

lemma sep_chain:
  "sorted_wrt (\<lambda>x y. sep (brect x) (brect y)) bs \<Longrightarrow>
   list_all (\<lambda>(ai, bj, sz). i \<le> ai \<and> j \<le> bj \<and> ai + sz \<le> la \<and> bj + sz \<le> lb) bs \<Longrightarrow>
   i \<le> la \<Longrightarrow> j \<le> lb \<Longrightarrow> chain la lb i j bs"
proof (induction bs arbitrary: i j)
  case Nil
  then show ?case by simp
next
  case (Cons x bs)
  obtain ai bj sz where x: "x = (ai, bj, sz)" by (cases x)
  have "list_all (\<lambda>(ai', bj', sz'). ai + sz \<le> ai' \<and> bj + sz \<le> bj' \<and> ai' + sz' \<le> la \<and> bj' + sz' \<le> lb) bs"
    using Cons.prems(1,2) unfolding x by (auto simp: list_all_iff)
  with Cons.IH[of "ai + sz" "bj + sz"] Cons.prems show ?case unfolding x by auto
qed

lemma chain_mono: "chain la lb i j bs \<Longrightarrow> i' \<le> i \<Longrightarrow> j' \<le> j \<Longrightarrow> chain la lb i' j' bs"
  by (cases bs) auto

lemma collapse_loop_acc:
  "collapse_loop cur bs acc = (fst (collapse_loop cur bs []), acc @ snd (collapse_loop cur bs []))"
proof (induction bs arbitrary: cur acc)
  case Nil
  then show ?case by (cases cur) simp
next
  case (Cons x bs)
  obtain i1 j1 k1 where cur: "cur = (i1, j1, k1)" by (cases cur)
  obtain i2 j2 k2 where x: "x = (i2, j2, k2)" by (cases x)
  show ?case
  proof (cases "i1 + k1 = i2 \<and> j1 + k1 = j2")
    case True
    with Cons.IH[of "(i1, j1, k1 + k2)" acc] show ?thesis unfolding cur x by simp
  next
    case False
    show ?thesis
    proof (cases "k1 = 0")
      case True
      with False Cons.IH[of "(i2, j2, k2)" acc] show ?thesis unfolding cur x by simp
    next
      case nz: False
      have step: "\<And>acc. collapse_loop (i1, j1, k1) ((i2, j2, k2) # bs) acc =
                   collapse_loop (i2, j2, k2) bs (acc @ [(i1, j1, k1)])"
        using False nz by auto
      have "collapse_loop (i2, j2, k2) bs (acc @ [(i1, j1, k1)]) =
            (fst (collapse_loop (i2, j2, k2) bs []),
             (acc @ [(i1, j1, k1)]) @ snd (collapse_loop (i2, j2, k2) bs []))"
        by (rule Cons.IH)
      moreover have "collapse_loop (i2, j2, k2) bs ([] @ [(i1, j1, k1)]) =
            (fst (collapse_loop (i2, j2, k2) bs []),
             ([] @ [(i1, j1, k1)]) @ snd (collapse_loop (i2, j2, k2) bs []))"
        by (rule Cons.IH)
      ultimately show ?thesis unfolding cur x step by simp
    qed
  qed
qed

lemma collapse_Nil: "collapse (i1, j1, k1) [] = (if k1 \<noteq> 0 then [(i1, j1, k1)] else [])"
  by (simp add: collapse_def)

lemma collapse_Cons:
  "collapse (i1, j1, k1) ((i2, j2, k2) # rest) =
     (if i1 + k1 = i2 \<and> j1 + k1 = j2 then collapse (i1, j1, k1 + k2) rest
      else (if k1 \<noteq> 0 then [(i1, j1, k1)] else []) @ collapse (i2, j2, k2) rest)"
proof -
  have "collapse_loop (i2, j2, k2) rest [(i1, j1, k1)] =
        (fst (collapse_loop (i2, j2, k2) rest []), [(i1, j1, k1)] @ snd (collapse_loop (i2, j2, k2) rest []))"
    by (rule collapse_loop_acc)
  then show ?thesis
    by (auto simp: collapse_def split: prod.splits)
qed

lemma collapse_chain:
  "chain la lb (i1 + k1) (j1 + k1) bs \<Longrightarrow> chain la lb i1 j1 (collapse (i1, j1, k1) bs)"
proof (induction bs arbitrary: i1 j1 k1)
  case Nil
  then show ?case by (simp add: collapse_Nil)
next
  case (Cons x bs)
  obtain i2 j2 k2 where x: "x = (i2, j2, k2)" by (cases x)
  from Cons.prems have le: "i1 + k1 \<le> i2" "j1 + k1 \<le> j2"
    and rest: "chain la lb (i2 + k2) (j2 + k2) bs" unfolding x by auto
  show ?case
  proof (cases "i1 + k1 = i2 \<and> j1 + k1 = j2")
    case True
    from True have e: "i1 + (k1 + k2) = i2 + k2" "j1 + (k1 + k2) = j2 + k2" by auto
    have "chain la lb (i1 + (k1 + k2)) (j1 + (k1 + k2)) bs" unfolding e by (rule rest)
    from Cons.IH[OF this] True show ?thesis unfolding x by (simp add: collapse_Cons)
  next
    case False
    from Cons.IH[OF rest] have c2: "chain la lb i2 j2 (collapse (i2, j2, k2) bs)" .
    show ?thesis
    proof (cases "k1 = 0")
      case True
      with le chain_mono[OF c2, of i1 j1] False show ?thesis unfolding x
        by (auto simp: collapse_Cons)
    next
      case nz: False
      with chain_mono[OF c2 le] False show ?thesis unfolding x
        by (auto simp: collapse_Cons)
    qed
  qed
qed

lemma chain_full: "chain la lb i j bs \<Longrightarrow> full_chain la lb i j (bs @ [(la, lb, 0)])"
  by (induction la lb i j bs rule: chain.induct) auto

lemma get_matching_blocks_collapse:
  "get_matching_blocks a b =
     collapse (0, 0, 0) (sort (matching_loop a b [(0, length a, 0, length b)] []))
     @ [(length a, length b, 0)]"
  by (simp add: get_matching_blocks_def collapse_def Let_def split: prod.splits)

lemma get_matching_blocks_full_chain:
  "full_chain (length a) (length b) 0 0 (get_matching_blocks a b)"
proof -
  let ?la = "length a" and ?lb = "length b"
  let ?mbs = "matching_loop a b [(0, ?la, 0, ?lb)] []"
  have "ml_inv ?la ?lb [(0, ?la, 0, ?lb)] []" by (simp add: ml_inv_def)
  from matching_loop_inv[OF this, of a b]
  have bnd: "list_all (\<lambda>(i, j, k). 0 < k \<and> i + k \<le> ?la \<and> j + k \<le> ?lb) ?mbs"
    and c: "sorted_wrt compat (map brect ?mbs)"
    by (auto simp: ml_inv_def)
  from bnd have pos: "\<forall>x\<in>set ?mbs. 0 < snd (snd x)"
    by (auto simp: list_all_iff)
  have s: "sorted_wrt (\<lambda>x y. sep (brect x) (brect y)) (sort ?mbs)"
    by (rule blocks_sorted_sep[OF c pos])
  have "list_all (\<lambda>(ai, bj, sz). 0 \<le> ai \<and> 0 \<le> bj \<and> ai + sz \<le> ?la \<and> bj + sz \<le> ?lb) (sort ?mbs)"
    using bnd by (auto simp: list_all_iff)
  from sep_chain[OF s this] have "chain ?la ?lb 0 0 (sort ?mbs)" by simp
  then have "chain ?la ?lb (0 + 0) (0 + 0) (sort ?mbs)" by simp
  from chain_full[OF collapse_chain[OF this]] show ?thesis
    by (simp only: get_matching_blocks_collapse)
qed

section \<open>The opcodes tile both sequences\<close>

lemma align_loop_columns:
  "align_loop seq1 seq2 ops (x, y) =
     (x @ concat (map (\<lambda>op. fst (opcode_columns seq1 seq2 op)) ops),
      y @ concat (map (\<lambda>op. snd (opcode_columns seq1 seq2 op)) ops))"
proof (induction ops arbitrary: x y)
  case Nil
  then show ?case by simp
next
  case (Cons op ops)
  obtain tg i1 i2 j1 j2 where op: "op = (tg, i1, i2, j1, j2)" by (cases op)
  show ?case unfolding op by (cases tg) (simp_all add: Cons.IH Let_def)
qed

lemma opcodes_loop_acc:
  "opcodes_loop i j bs answer = answer @ opcodes_loop i j bs []"
proof (induction bs arbitrary: i j answer)
  case Nil
  then show ?case by simp
next
  case (Cons x bs)
  obtain ai bj sz where x: "x = (ai, bj, sz)" by (cases x)
  have step: "\<And>ans. opcodes_loop i j ((ai, bj, sz) # bs) ans =
     opcodes_loop (ai + sz) (bj + sz) bs
       (ans @ (if i < ai \<and> j < bj then [(Replace, i, ai, j, bj)]
               else if i < ai then [(Delete, i, ai, j, bj)]
               else if j < bj then [(Insert, i, ai, j, bj)] else [])
            @ (if sz \<noteq> 0 then [(Equal, ai, ai + sz, bj, bj + sz)] else []))"
    by (simp add: Let_def)
  show ?case unfolding x step
    by (subst Cons.IH, subst (2) Cons.IH) simp
qed

lemma opcodes_loop_Cons:
  "opcodes_loop i j ((ai, bj, sz) # bs) [] =
     (if i < ai \<and> j < bj then [(Replace, i, ai, j, bj)]
      else if i < ai then [(Delete, i, ai, j, bj)]
      else if j < bj then [(Insert, i, ai, j, bj)] else [])
     @ (if sz \<noteq> 0 then [(Equal, ai, ai + sz, bj, bj + sz)] else [])
     @ opcodes_loop (ai + sz) (bj + sz) bs []"
proof -
  have "opcodes_loop i j ((ai, bj, sz) # bs) [] =
     opcodes_loop (ai + sz) (bj + sz) bs
       ((if i < ai \<and> j < bj then [(Replace, i, ai, j, bj)]
               else if i < ai then [(Delete, i, ai, j, bj)]
               else if j < bj then [(Insert, i, ai, j, bj)] else [])
            @ (if sz \<noteq> 0 then [(Equal, ai, ai + sz, bj, bj + sz)] else []))"
    by (simp add: Let_def)
  then show ?thesis by (subst (asm) opcodes_loop_acc) simp
qed

lemma full_chain_le: "full_chain la lb i j bs \<Longrightarrow> i \<le> la \<and> j \<le> lb"
  by (induction la lb i j bs rule: full_chain.induct) auto

lemma opcodes_chain:
  "full_chain la lb i j bs \<Longrightarrow> ops_chain la lb i j (opcodes_loop i j bs [])"
proof (induction bs arbitrary: i j)
  case Nil
  then show ?case by simp
next
  case (Cons x bs)
  obtain ai bj sz where x: "x = (ai, bj, sz)" by (cases x)
  from Cons.prems have le: "i \<le> ai" "j \<le> bj" and rest: "full_chain la lb (ai + sz) (bj + sz) bs"
    unfolding x by auto
  from full_chain_le[OF rest] have bnd: "ai + sz \<le> la" "bj + sz \<le> lb" by auto
  from Cons.IH[OF rest] have ih: "ops_chain la lb (ai + sz) (bj + sz) (opcodes_loop (ai + sz) (bj + sz) bs [])" .
  show ?case unfolding x opcodes_loop_Cons using le bnd ih by auto
qed

lemma get_opcodes_chain:
  "ops_chain (length a) (length b) 0 0 (get_opcodes a b)"
  unfolding get_opcodes_def by (rule opcodes_chain[OF get_matching_blocks_full_chain])

section \<open>Properties of the alignment\<close>

lemma slice_length: "i2 \<le> length xs \<Longrightarrow> length (slice xs i1 i2) = i2 - i1"
  by (simp add: slice_def)

lemma slice_drop: "i1 \<le> i2 \<Longrightarrow> i2 \<le> length xs \<Longrightarrow> slice xs i1 i2 @ drop i2 xs = drop i1 xs"
proof -
  assume a: "i1 \<le> i2" "i2 \<le> length xs"
  have "drop i1 xs = drop i1 (take i2 xs @ drop i2 xs)" by simp
  also have "\<dots> = drop i1 (take i2 xs) @ drop i2 xs" using a by (simp del: append_take_drop_id)
  finally show ?thesis by (simp add: slice_def)
qed

lemma slice_gap_free: "gap_free xs \<Longrightarrow> gap_free (slice xs i1 i2)"
  unfolding gap_free_def slice_def by (meson in_set_dropD in_set_takeD)

lemma remove_gaps_append: "remove_gaps (xs @ ys) = remove_gaps xs @ remove_gaps ys"
  by (simp add: remove_gaps_def)

lemma remove_gaps_replicate: "remove_gaps (replicate n None) = []"
  by (simp add: remove_gaps_def)

lemma remove_gaps_id: "gap_free xs \<Longrightarrow> remove_gaps xs = xs"
proof -
  assume "gap_free xs"
  then have "\<forall>x\<in>set xs. x \<noteq> None" unfolding gap_free_def by metis
  then show ?thesis unfolding remove_gaps_def by (simp only: filter_id_conv)
qed

lemma columns_length:
  assumes "ops_chain (length seq1) (length seq2) i j ((tg, i1, i2, j1, j2) # ops)"
  shows "length (fst (opcode_columns seq1 seq2 (tg, i1, i2, j1, j2))) =
         length (snd (opcode_columns seq1 seq2 (tg, i1, i2, j1, j2)))"
  using assms by (cases tg) (auto simp: slice_length)

lemma columns_remove_gaps:
  assumes "ops_chain (length seq1) (length seq2) i j ((tg, i1, i2, j1, j2) # ops)"
  shows "remove_gaps (fst (opcode_columns seq1 seq2 (tg, i1, i2, j1, j2))) = remove_gaps (slice seq1 i1 i2)"
    and "remove_gaps (snd (opcode_columns seq1 seq2 (tg, i1, i2, j1, j2))) = remove_gaps (slice seq2 j1 j2)"
  using assms
  by (cases tg; simp add: remove_gaps_append remove_gaps_replicate; simp add: slice_def remove_gaps_def)+

lemma zip_pad_no_gap_gap:
  assumes "gap_free xs" "gap_free ys"
  shows "(None, None) \<notin> set (zip (xs @ replicate (max (length xs) (length ys) - length xs) None)
                                 (ys @ replicate (max (length xs) (length ys) - length ys) None))"
proof
  let ?X = "xs @ replicate (max (length xs) (length ys) - length xs) None"
  let ?Y = "ys @ replicate (max (length xs) (length ys) - length ys) None"
  assume "(None, None) \<in> set (zip ?X ?Y)"
  then obtain p where p: "p < length ?X" "p < length ?Y" "?X ! p = None" "?Y ! p = None"
    by (auto simp: in_set_zip)
  have "p < length xs \<or> p < length ys" using p(1,2) by (auto simp: max_def split: if_splits)
  then show False
  proof
    assume "p < length xs"
    then have "xs ! p = None" using p(3) by (simp add: nth_append)
    with \<open>p < length xs\<close> assms(1) show False unfolding gap_free_def by (metis nth_mem)
  next
    assume "p < length ys"
    then have "ys ! p = None" using p(4) by (simp add: nth_append)
    with \<open>p < length ys\<close> assms(2) show False unfolding gap_free_def by (metis nth_mem)
  qed
qed

lemma zip_left_gap_free: "gap_free xs \<Longrightarrow> (None, t) \<notin> set (zip xs ys)"
  unfolding gap_free_def by (meson set_zip_leftD)

lemma zip_right_gap_free: "gap_free ys \<Longrightarrow> (t, None) \<notin> set (zip xs ys)"
  unfolding gap_free_def by (meson set_zip_rightD)

lemma columns_no_gap_gap:
  assumes "gap_free seq1" "gap_free seq2"
  shows "(None, None) \<notin> set (zip (fst (opcode_columns seq1 seq2 (tg, i1, i2, j1, j2)))
                                 (snd (opcode_columns seq1 seq2 (tg, i1, i2, j1, j2))))"
proof (cases tg)
  case Equal
  then show ?thesis using zip_left_gap_free[OF slice_gap_free[OF assms(1)]] by simp
next
  case Replace
  then show ?thesis
    using zip_pad_no_gap_gap[OF slice_gap_free[OF assms(1)] slice_gap_free[OF assms(2)]] by simp
next
  case Delete
  then show ?thesis using zip_left_gap_free[OF slice_gap_free[OF assms(1)]] by simp
next
  case Insert
  then show ?thesis using zip_right_gap_free[OF slice_gap_free[OF assms(2)]] by simp
qed

lemma columns_Cons:
  "columns1 seq1 seq2 (op # ops) = fst (opcode_columns seq1 seq2 op) @ columns1 seq1 seq2 ops"
  "columns2 seq1 seq2 (op # ops) = snd (opcode_columns seq1 seq2 op) @ columns2 seq1 seq2 ops"
  by (simp_all add: columns1_def columns2_def)

lemma columns_Nil: "columns1 seq1 seq2 [] = []" "columns2 seq1 seq2 [] = []"
  by (simp_all add: columns1_def columns2_def)

lemma ops_chain_tail:
  "ops_chain la lb i j ((tg, i1, i2, j1, j2) # ops) \<Longrightarrow>
   ops_chain la lb i2 j2 ops \<and> i1 = i \<and> j1 = j \<and> i \<le> i2 \<and> i2 \<le> la \<and> j \<le> j2 \<and> j2 \<le> lb"
  by simp

lemma chain_columns_length:
  "ops_chain (length seq1) (length seq2) i j ops \<Longrightarrow>
   length (columns1 seq1 seq2 ops) = length (columns2 seq1 seq2 ops)"
proof (induction ops arbitrary: i j)
  case Nil
  then show ?case by (simp add: columns_Nil)
next
  case (Cons op ops)
  obtain tg i1 i2 j1 j2 where op: "op = (tg, i1, i2, j1, j2)" by (cases op)
  from Cons.prems ops_chain_tail have t: "ops_chain (length seq1) (length seq2) i2 j2 ops"
    unfolding op by blast
  from Cons.IH[OF t] columns_length[OF Cons.prems[unfolded op]] show ?case
    unfolding op columns_Cons by simp
qed

lemma chain_columns_remove_gaps:
  "ops_chain (length seq1) (length seq2) i j ops \<Longrightarrow>
   remove_gaps (columns1 seq1 seq2 ops) = remove_gaps (drop i seq1)
   \<and> remove_gaps (columns2 seq1 seq2 ops) = remove_gaps (drop j seq2)"
proof (induction ops arbitrary: i j)
  case Nil
  then show ?case by (simp add: columns_Nil remove_gaps_def)
next
  case (Cons op ops)
  obtain tg i1 i2 j1 j2 where op: "op = (tg, i1, i2, j1, j2)" by (cases op)
  from ops_chain_tail[OF Cons.prems[unfolded op]]
  have t: "ops_chain (length seq1) (length seq2) i2 j2 ops"
    and b: "i1 = i" "j1 = j" "i \<le> i2" "i2 \<le> length seq1" "j \<le> j2" "j2 \<le> length seq2"
    by auto
  from slice_drop[OF b(3,4)] have d1: "drop i seq1 = slice seq1 i i2 @ drop i2 seq1" by simp
  from slice_drop[OF b(5,6)] have d2: "drop j seq2 = slice seq2 j j2 @ drop j2 seq2" by simp
  from Cons.IH[OF t] columns_remove_gaps[OF Cons.prems[unfolded op]] b(1,2)
  show ?case unfolding op columns_Cons d1 d2 by (simp add: remove_gaps_append)
qed

lemma chain_columns_no_gap_gap:
  assumes "gap_free seq1" "gap_free seq2"
  shows "ops_chain (length seq1) (length seq2) i j ops \<Longrightarrow>
   (None, None) \<notin> set (zip (columns1 seq1 seq2 ops) (columns2 seq1 seq2 ops))"
proof (induction ops arbitrary: i j)
  case Nil
  then show ?case by (simp add: columns_Nil)
next
  case (Cons op ops)
  obtain tg i1 i2 j1 j2 where op: "op = (tg, i1, i2, j1, j2)" by (cases op)
  from ops_chain_tail[OF Cons.prems[unfolded op]]
  have t: "ops_chain (length seq1) (length seq2) i2 j2 ops" by simp
  from Cons.IH[OF t] columns_no_gap_gap[OF assms, of tg i1 i2 j1 j2]
    columns_length[OF Cons.prems[unfolded op]]
  show ?case unfolding op columns_Cons by (simp add: zip_append)
qed

lemma align_two_columns:
  "align_two seq1 seq2 =
     (columns1 seq1 seq2 (get_opcodes seq1 seq2), columns2 seq1 seq2 (get_opcodes seq1 seq2))"
  by (simp add: align_two_def align_loop_columns columns1_def columns2_def)

lemma align_two_length:
  "length (fst (align_two seq1 seq2)) = length (snd (align_two seq1 seq2))"
  unfolding align_two_columns using chain_columns_length[OF get_opcodes_chain] by simp

lemma align_two_remove_gaps:
  "remove_gaps (fst (align_two seq1 seq2)) = remove_gaps seq1"
  "remove_gaps (snd (align_two seq1 seq2)) = remove_gaps seq2"
  unfolding align_two_columns using chain_columns_remove_gaps[OF get_opcodes_chain, of seq1 seq2]
  by simp_all

lemma align_two_no_gap_gap:
  "gap_free seq1 \<Longrightarrow> gap_free seq2 \<Longrightarrow>
   (None, None) \<notin> set (zip (fst (align_two seq1 seq2)) (snd (align_two seq1 seq2)))"
  unfolding align_two_columns using chain_columns_no_gap_gap[OF _ _ get_opcodes_chain] by simp

section \<open>The consensus loop\<close>

lemma consensus_loop_eq:
  "consensus_loop idx cols (consensus, out) =
     (consensus @ concat (map column_output cols), out @ printed_from idx cols)"
proof (induction cols arbitrary: idx consensus out)
  case Nil
  then show ?case by simp
next
  case (Cons c cols)
  obtain t1 t2 where c: "c = (t1, t2)" by (cases c)
  show ?case unfolding c by (simp add: Cons.IH)
qed

lemma consensus_two_eq:
  "consensus_two seq1 seq2 =
     (concat (map column_output (zip (fst (align_two seq1 seq2)) (snd (align_two seq1 seq2)))),
      printed_from 0 (zip (fst (align_two seq1 seq2)) (snd (align_two seq1 seq2))))"
  by (simp add: consensus_two_def consensus_loop_eq split: prod.splits)

lemma length_column_outputs:
  "length (concat (map column_output cols)) =
   length (filter (\<lambda>(t1, t2). \<not> (t1 = None \<and> t2 = None)) cols)"
proof (induction cols)
  case Nil
  then show ?case by simp
next
  case (Cons c cols)
  obtain t1 t2 where c: "c = (t1, t2)" by (cases c)
  show ?case unfolding c using Cons.IH by (cases t1; cases t2) simp_all
qed

lemma column_outputs_nth:
  assumes "idx < length cols" "cols ! idx = (t1, t2)" "t1 \<noteq> None"
  shows "concat (map column_output cols) ! emitted_before cols idx = t1
         \<and> emitted_before cols idx < length (concat (map column_output cols))"
proof -
  have split: "cols = take idx cols @ (t1, t2) # drop (Suc idx) cols"
    using assms(1,2) by (metis id_take_nth_drop)
  have one: "column_output (t1, t2) = [t1]" using assms(3) by auto
  have "concat (map column_output (take idx cols @ (t1, t2) # drop (Suc idx) cols)) =
        concat (map column_output (take idx cols)) @ t1 # concat (map column_output (drop (Suc idx) cols))"
    by (simp only: map_append list.map concat_append concat.simps one append_Cons append_Nil)
  with split have "concat (map column_output cols) =
        concat (map column_output (take idx cols)) @ t1 # concat (map column_output (drop (Suc idx) cols))"
    by simp
  moreover have "emitted_before cols idx = length (concat (map column_output (take idx cols)))"
    by (simp only: emitted_before_def length_column_outputs)
  ultimately show ?thesis by (simp only: nth_append_length) simp
qed

lemma column_outputs_nth_right:
  assumes "idx < length cols" "cols ! idx = (None, t2)" "t2 \<noteq> None"
  shows "concat (map column_output cols) ! emitted_before cols idx = t2
         \<and> emitted_before cols idx < length (concat (map column_output cols))"
proof -
  have split: "cols = take idx cols @ (None, t2) # drop (Suc idx) cols"
    using assms(1,2) by (metis id_take_nth_drop)
  have one: "column_output (None, t2) = [t2]" using assms(3) by auto
  have "concat (map column_output (take idx cols @ (None, t2) # drop (Suc idx) cols)) =
        concat (map column_output (take idx cols)) @ t2 # concat (map column_output (drop (Suc idx) cols))"
    by (simp only: map_append list.map concat_append concat.simps one append_Cons append_Nil)
  with split have "concat (map column_output cols) =
        concat (map column_output (take idx cols)) @ t2 # concat (map column_output (drop (Suc idx) cols))"
    by simp
  moreover have "emitted_before cols idx = length (concat (map column_output (take idx cols)))"
    by (simp only: emitted_before_def length_column_outputs)
  ultimately show ?thesis by (simp only: nth_append_length) simp
qed

lemma printed_from_mismatch:
  assumes "p < length cols" "cols ! p = (Some x, Some y)" "x \<noteq> y"
  shows "Mismatch (idx + p) (Some x) (Some y) \<in> set (printed_from idx cols)"
  using assms
proof (induction cols arbitrary: idx p)
  case Nil
  then show ?case by simp
next
  case (Cons c cols)
  show ?case
  proof (cases p)
    case 0
    with Cons.prems show ?thesis by simp
  next
    case (Suc q)
    with Cons.prems have "q < length cols" "cols ! q = (Some x, Some y)" by auto
    from Cons.IH[OF this Cons.prems(3), of "idx + 1"] Suc show ?thesis by simp
  qed
qed

lemma printed_from_agree:
  "\<forall>(t1, t2)\<in>set cols. t1 = None \<or> t2 = None \<or> t1 = t2 \<Longrightarrow> printed_from idx cols = []"
  by (induction cols arbitrary: idx) auto

lemma filter_nth: "map ((!) xs) (filter (\<lambda>i. P (xs ! i)) [0..<length xs]) = filter P xs"
proof -
  have "filter P xs = filter P (map ((!) xs) [0..<length xs])" by (simp only: map_nth)
  also have "\<dots> = map ((!) xs) (filter (P \<circ> (!) xs) [0..<length xs])" by (simp only: filter_map)
  finally show ?thesis by (simp add: comp_def)
qed

lemma subseq_column_outputs:
  "subseq (remove_gaps (map fst cols)) (concat (map column_output cols))"
proof (induction cols)
  case Nil
  then show ?case by (simp add: remove_gaps_def)
next
  case (Cons c cols)
  obtain t1 t2 where c: "c = (t1, t2)" by (cases c)
  show ?case
  proof (cases "t1 = None")
    case True
    then have "remove_gaps (map fst (c # cols)) = remove_gaps (map fst cols)"
      unfolding c by (simp add: remove_gaps_def)
    moreover have "\<exists>pre. concat (map column_output (c # cols)) = pre @ concat (map column_output cols)"
      by simp
    ultimately show ?thesis using Cons.IH by (metis list_emb_append2)
  next
    case False
    then have "remove_gaps (map fst (c # cols)) = t1 # remove_gaps (map fst cols)"
      unfolding c by (simp add: remove_gaps_def)
    moreover from False have "concat (map column_output (c # cols)) = t1 # concat (map column_output cols)"
      unfolding c by auto
    ultimately show ?thesis using Cons.IH by simp
  qed
qed

lemma zip_align_two_length:
  "length (zip (fst (align_two A B)) (snd (align_two A B))) = length (fst (align_two A B))"
  using align_two_length[of A B] by simp

lemma consensus_two_left_tokens:
  assumes "idx < length (fst (align_two A B))" "fst (align_two A B) ! idx \<noteq> None"
  shows "fst (consensus_two A B) ! emitted_before (zip (fst (align_two A B)) (snd (align_two A B))) idx
           = fst (align_two A B) ! idx
         \<and> emitted_before (zip (fst (align_two A B)) (snd (align_two A B))) idx
           < length (fst (consensus_two A B))"
proof -
  let ?cols = "zip (fst (align_two A B)) (snd (align_two A B))"
  from assms(1) have i: "idx < length ?cols" by (simp only: zip_align_two_length)
  then have c: "?cols ! idx = (fst (align_two A B) ! idx, snd (align_two A B) ! idx)" by simp
  from column_outputs_nth[OF i c assms(2)] show ?thesis by (simp add: consensus_two_eq)
qed

lemma consensus_two_mismatch_printed:
  assumes "idx < length (fst (align_two A B))"
    and "fst (align_two A B) ! idx = Some x" "snd (align_two A B) ! idx = Some y" "x \<noteq> y"
  shows "Mismatch idx (Some x) (Some y) \<in> set (snd (consensus_two A B))"
proof -
  let ?cols = "zip (fst (align_two A B)) (snd (align_two A B))"
  from assms(1) have i: "idx < length ?cols" by (simp only: zip_align_two_length)
  then have c: "?cols ! idx = (Some x, Some y)" using assms(2,3) by simp
  from printed_from_mismatch[OF i c assms(4), of 0] show ?thesis by (simp add: consensus_two_eq)
qed

lemma consensus_two_right_tokens:
  assumes i: "idx < length (snd (align_two A B))" and r: "snd (align_two A B) ! idx = Some y"
  shows "emitted_before (zip (fst (align_two A B)) (snd (align_two A B))) idx
           < length (fst (consensus_two A B))
         \<and> (fst (consensus_two A B)
               ! emitted_before (zip (fst (align_two A B)) (snd (align_two A B))) idx = Some y
            \<or> (\<exists>x. x \<noteq> y \<and> fst (align_two A B) ! idx = Some x
                  \<and> fst (consensus_two A B)
                       ! emitted_before (zip (fst (align_two A B)) (snd (align_two A B))) idx = Some x
                  \<and> Mismatch idx (Some x) (Some y) \<in> set (snd (consensus_two A B))))"
proof -
  let ?al1 = "fst (align_two A B)" and ?al2 = "snd (align_two A B)"
  let ?cols = "zip ?al1 ?al2"
  from i have i1: "idx < length ?al1" by (simp only: align_two_length)
  then have ic: "idx < length ?cols" by (simp only: zip_align_two_length)
  show ?thesis
  proof (cases "?al1 ! idx")
    case None
    from ic None r have c: "?cols ! idx = (None, Some y)" by simp
    have "Some y \<noteq> None" by simp
    from column_outputs_nth_right[OF ic c this] show ?thesis by (simp add: consensus_two_eq)
  next
    case (Some x)
    then have ne: "?al1 ! idx \<noteq> None" by simp
    from consensus_two_left_tokens[OF i1 ne] Some
    have l: "emitted_before ?cols idx < length (fst (consensus_two A B))"
      "fst (consensus_two A B) ! emitted_before ?cols idx = Some x" by simp_all
    show ?thesis
    proof (cases "x = y")
      case True
      with l show ?thesis by simp
    next
      case False
      from consensus_two_mismatch_printed[OF i1 Some r False] l Some False show ?thesis by blast
    qed
  qed
qed

lemma consensus_two_preserves_left:
  assumes "gap_free A"
  shows "map (\<lambda>idx. fst (consensus_two A B)
                       ! emitted_before (zip (fst (align_two A B)) (snd (align_two A B))) idx)
             (filter (\<lambda>idx. fst (align_two A B) ! idx \<noteq> None) [0..<length (fst (align_two A B))]) = A"
    and "subseq A (fst (consensus_two A B))"
proof -
  let ?al1 = "fst (align_two A B)" and ?al2 = "snd (align_two A B)"
  let ?cols = "zip ?al1 ?al2"
  have rg: "remove_gaps ?al1 = A"
    using align_two_remove_gaps(1)[of A B] remove_gaps_id[OF assms] by simp
  have "map (\<lambda>idx. fst (consensus_two A B) ! emitted_before ?cols idx)
            (filter (\<lambda>idx. ?al1 ! idx \<noteq> None) [0..<length ?al1])
        = map ((!) ?al1) (filter (\<lambda>idx. ?al1 ! idx \<noteq> None) [0..<length ?al1])"
    by (rule map_cong[OF refl]) (use consensus_two_left_tokens in auto)
  also have "\<dots> = filter (\<lambda>t. t \<noteq> None) ?al1" by (rule filter_nth)
  finally show "map (\<lambda>idx. fst (consensus_two A B) ! emitted_before ?cols idx)
            (filter (\<lambda>idx. ?al1 ! idx \<noteq> None) [0..<length ?al1]) = A"
    using rg by (simp add: remove_gaps_def)
  have "map fst ?cols = ?al1" using align_two_length[of A B] by (simp add: map_fst_zip)
  with subseq_column_outputs[of ?cols] rg show "subseq A (fst (consensus_two A B))"
    by (simp add: consensus_two_eq)
qed

lemma consensus_two_no_skip:
  assumes "gap_free A" "gap_free B"
  shows "length (fst (consensus_two A B)) = length (fst (align_two A B))"
proof -
  let ?cols = "zip (fst (align_two A B)) (snd (align_two A B))"
  from align_two_no_gap_gap[OF assms]
  have ng: "(None, None) \<notin> set ?cols" .
  have "\<forall>c\<in>set ?cols. (case c of (t1, t2) \<Rightarrow> \<not> (t1 = None \<and> t2 = None))"
  proof
    fix c assume "c \<in> set ?cols"
    with ng have "c \<noteq> (None, None)" by metis
    then show "case c of (t1, t2) \<Rightarrow> \<not> (t1 = None \<and> t2 = None)" by (cases c) simp
  qed
  then have "filter (\<lambda>(t1, t2). \<not> (t1 = None \<and> t2 = None)) ?cols = ?cols"
    by (simp only: filter_id_conv)
  then have "length (concat (map column_output ?cols)) = length ?cols"
    by (simp only: length_column_outputs)
  then show ?thesis by (simp only: zip_align_two_length consensus_two_eq fst_conv)
qed

section \<open>One side empty\<close>

lemma isbjunk_left: "extend_left a b alo blo isbjunk best = best"
proof -
  obtain i j k where best: "best = (i, j, k)" by (cases best)
  show ?thesis unfolding best by (subst extend_left.simps) (simp add: isbjunk_def)
qed

lemma isbjunk_right: "extend_right a b ahi bhi isbjunk best = best"
proof -
  obtain i j k where best: "best = (i, j, k)" by (cases best)
  show ?thesis unfolding best by (subst extend_right.simps) (simp add: isbjunk_def)
qed

lemmas isbjunk_loops = isbjunk_left isbjunk_right

lemma chain_b_Nil: "chain_b [] = Map.empty"
  by (simp add: chain_b_def)

lemma outer_loop_no_keys:
  "outer_loop a Map.empty blo bhi rows (j2len, best) = best"
  by (induction rows arbitrary: j2len) simp_all

lemma find_longest_match_Nil2: "find_longest_match a [] 0 ahi 0 0 = (0, 0, 0)"
proof -
  have l: "extend_left a [] 0 0 (\<lambda>elt. \<not> isbjunk elt) (0, 0, 0) = (0, 0, 0)"
    by (subst extend_left.simps) simp
  have r: "extend_right a [] ahi 0 (\<lambda>elt. \<not> isbjunk elt) (0, 0, 0) = (0, 0, 0)"
    by (subst extend_right.simps) simp
  show ?thesis
    by (simp add: find_longest_match_def chain_b_Nil outer_loop_no_keys l r isbjunk_loops)
qed

lemma find_longest_match_Nil1: "find_longest_match [] b 0 0 0 bhi = (0, 0, 0)"
proof -
  have l: "extend_left [] b 0 0 (\<lambda>elt. \<not> isbjunk elt) (0, 0, 0) = (0, 0, 0)"
    by (subst extend_left.simps) simp
  have r: "extend_right [] b 0 bhi (\<lambda>elt. \<not> isbjunk elt) (0, 0, 0) = (0, 0, 0)"
    by (subst extend_right.simps) simp
  show ?thesis
    by (simp add: find_longest_match_def l r isbjunk_loops)
qed

lemma get_matching_blocks_Nil2: "get_matching_blocks a [] = [(length a, 0, 0)]"
  by (simp add: get_matching_blocks_def matching_loop.simps find_longest_match_Nil2)

lemma get_matching_blocks_Nil1: "get_matching_blocks [] b = [(0, length b, 0)]"
  by (simp add: get_matching_blocks_def matching_loop.simps find_longest_match_Nil1)

lemma slice_all: "slice xs 0 (length xs) = xs"
  by (simp add: slice_def)

lemma align_two_Nil2: "align_two A [] = (A, replicate (length A) None)"
  by (simp add: align_two_def get_opcodes_def get_matching_blocks_Nil2 slice_all)

lemma align_two_Nil1: "align_two [] B = (replicate (length B) None, B)"
  by (simp add: align_two_def get_opcodes_def get_matching_blocks_Nil1 slice_all)

lemma columns_left_only:
  "gap_free A \<Longrightarrow> concat (map column_output (zip A (replicate (length A) None))) = A
     \<and> printed_from idx (zip A (replicate (length A) None)) = []"
proof (induction A arbitrary: idx)
  case Nil
  then show ?case by simp
next
  case (Cons t A)
  from Cons.prems have "t \<noteq> None" "gap_free A" unfolding gap_free_def by (metis list.set_intros(1), metis list.set_intros(2))
  with Cons.IH[of "idx + 1"] show ?case by auto
qed

lemma columns_right_only:
  "gap_free B \<Longrightarrow> concat (map column_output (zip (replicate (length B) None) B)) = B
     \<and> printed_from idx (zip (replicate (length B) None) B) = []"
proof (induction B arbitrary: idx)
  case Nil
  then show ?case by simp
next
  case (Cons t B)
  from Cons.prems have "t \<noteq> None" "gap_free B" unfolding gap_free_def by (metis list.set_intros(1), metis list.set_intros(2))
  with Cons.IH[of "idx + 1"] show ?case by auto
qed

section \<open>A sequence aligned with itself\<close>

text \<open>
  \<open>run a r\<close> is the number of consecutive positions ending at \<open>r\<close> whose elements are
  keys of \<^verbatim>\<open>b2j\<close>. When both sequences are \<open>a\<close>, every length stored in \<^verbatim>\<open>j2len\<close> is
  bounded by the run on the diagonal, so the first loop of \<open>find_longest_match\<close> leaves a
  match on the diagonal, which the extension loops stretch over the whole sequence.
\<close>

lemma chain_b_loop_positions:
  "chain_b_loop b i m x =
     (if positions x b i = [] then m x
      else Some ((case m x of None \<Rightarrow> [] | Some l \<Rightarrow> l) @ positions x b i))"
proof (induction b arbitrary: i m)
  case Nil
  then show ?case by simp
next
  case (Cons y ys)
  show ?case by (simp add: Cons.IH)
qed

lemma positions_set:
  "set (positions x b i) = {i + q | q. q < length b \<and> b ! q = x}"
proof (induction b arbitrary: i)
  case Nil
  then show ?case by simp
next
  case (Cons y ys)
  have "{i + q | q. q < length (y # ys) \<and> (y # ys) ! q = x} =
        (if y = x then {i} else {}) \<union> {i + 1 + q | q. q < length ys \<and> ys ! q = x}"
    (is "?L = ?R")
  proof (intro set_eqI iffI)
    fix p assume "p \<in> ?L"
    then obtain q where q: "p = i + q" "q < length (y # ys)" "(y # ys) ! q = x" by auto
    show "p \<in> ?R" using q by (cases q) auto
  next
    fix p assume "p \<in> ?R"
    then consider "y = x" "p = i" | q where "p = i + 1 + q" "q < length ys" "ys ! q = x"
      by (auto split: if_splits)
    then show "p \<in> ?L"
    proof cases
      case 1
      then have "p = i + 0 \<and> 0 < length (y # ys) \<and> (y # ys) ! 0 = x" by simp
      then show ?thesis by blast
    next
      case 2
      then have "p = i + Suc q \<and> Suc q < length (y # ys) \<and> (y # ys) ! Suc q = x" by simp
      then show ?thesis by blast
    qed
  qed
  then show ?case by (simp add: Cons.IH)
qed

lemma positions_sorted: "sorted_wrt (<) (positions x b i)"
proof (induction b arbitrary: i)
  case Nil
  then show ?case by simp
next
  case (Cons y ys)
  have "\<forall>p\<in>set (positions x ys (i + 1)). i < p" by (auto simp: positions_set)
  with Cons.IH[of "i + 1"] show ?case by simp
qed

lemma chain_b_Some:
  assumes "chain_b b x = Some idxs"
  shows "idxs = positions x b 0"
  using assms
  by (auto simp: chain_b_def chain_b_loop_positions Let_def split: if_splits option.splits)

lemma chain_b_keys:
  assumes "chain_b b (b ! r) = Some idxs" "r < length b"
  shows "sorted_wrt (<) idxs" "r \<in> set idxs" "\<forall>j\<in>set idxs. j < length b \<and> b ! j = b ! r"
proof -
  from chain_b_Some[OF assms(1)] have e: "idxs = positions (b ! r) b 0" .
  show "sorted_wrt (<) idxs" unfolding e by (rule positions_sorted)
  show "r \<in> set idxs" unfolding e positions_set using assms(2) by auto
  show "\<forall>j\<in>set idxs. j < length b \<and> b ! j = b ! r" unfolding e positions_set by auto
qed

lemma run_eq: "run a r = (if chain_b a (a ! r) = None then 0 else run_before a r + 1)"
  by (cases r) (simp_all add: run_before_def)

lemma inner_loop_diag:
  assumes M: "diag_j2len a r M"
    and key: "chain_b a (a ! r) \<noteq> None"
    and js: "sorted_wrt (<) js" "\<forall>j\<in>set js. j < n \<and> a ! j = a ! r"
    and N: "diag_new a r N"
    and best: "diag_best a r (bi, bj, bs)"
    and flag: "r \<in> set js \<or> (N (int r) = Some (run a r) \<and> run a r \<le> bs)"
    and res: "inner_loop r 0 n M js (N, bi, bj, bs) = (N', best')"
  shows "diag_new a r N' \<and> N' (int r) = Some (run a r) \<and> diag_best a (Suc r) best'"
  using js N best flag res
proof (induction js arbitrary: N bi bj bs)
  case Nil
  from Nil.prems(5) have fl: "N (int r) = Some (run a r)" "run a r \<le> bs" by auto
  from Nil.prems(6) have e: "N' = N" "best' = (bi, bj, bs)" by auto
  have "diag_best a (Suc r) (bi, bj, bs)"
    using Nil.prems(4) fl(2) by (auto simp: diag_best_def less_Suc_eq)
  with Nil.prems(3) fl(1) show ?case unfolding e by simp
next
  case (Cons j js)
  from Cons.prems(2) have jn: "j < n" and aj: "a ! j = a ! r" by auto
  from Cons.prems(1) have sorted': "sorted_wrt (<) js" and jlt: "\<forall>j'\<in>set js. j < j'" by auto
  from Cons.prems(2) have js': "\<forall>j\<in>set js. j < n \<and> a ! j = a ! r" by auto
  from Cons.prems(4) have diag: "bi = bj" and old: "\<forall>r'<r. run a r' \<le> bs"
    by (auto simp: diag_best_def)
  define k where "k = (case M (int j - 1) of None \<Rightarrow> 0 | Some v \<Rightarrow> v) + 1"
  have runr: "run a r = run_before a r + 1" using key by (simp add: run_eq)
  have runj: "run a j = run_before a j + 1" using key aj by (simp add: run_eq)
  have kj: "k \<le> run a j" and kr: "k \<le> run a r"
  proof -
    show "k \<le> run a j"
    proof (cases "M (int j - 1)")
      case None
      then show ?thesis unfolding k_def runj by simp
    next
      case (Some v)
      with M have q: "0 \<le> int j - 1" and v: "v \<le> run a (nat (int j - 1))"
        unfolding diag_j2len_def by blast+
      from q obtain j' where j': "j = Suc j'" by (cases j) auto
      then have "nat (int j - 1) = j'" by simp
      with v have "v \<le> run_before a j" unfolding j' by (simp add: run_before_def)
      with Some show ?thesis unfolding k_def runj by simp
    qed
    show "k \<le> run a r"
    proof (cases "M (int j - 1)")
      case None
      then show ?thesis unfolding k_def runr by simp
    next
      case (Some v)
      with M have "v \<le> run_before a r" unfolding diag_j2len_def by blast
      with Some show ?thesis unfolding k_def runr by simp
    qed
  qed
  have kdiag: "j = r \<Longrightarrow> k = run a r"
  proof -
    assume "j = r"
    with M have "case M (int j - 1) of None \<Rightarrow> run_before a r = 0 | Some v \<Rightarrow> v = run_before a r"
      unfolding diag_j2len_def by simp
    then show ?thesis unfolding k_def runr by (cases "M (int j - 1)") simp_all
  qed
  have N1: "diag_new a r (N(int j \<mapsto> k))"
    using Cons.prems(3) kj kr unfolding diag_new_def by auto
  have step: "inner_loop r 0 n M (j # js) (N, bi, bj, bs) =
      (if k > bs then inner_loop r 0 n M js (N(int j \<mapsto> k), r + 1 - k, j + 1 - k, k)
       else inner_loop r 0 n M js (N(int j \<mapsto> k), bi, bj, bs))"
    using jn by (simp add: k_def Let_def)
  show ?case
  proof (cases "j = r")
    case True
    have fl: "r \<in> set js \<or> ((N(int j \<mapsto> k)) (int r) = Some (run a r) \<and> run a r \<le> max bs k)"
      using True kdiag by simp
    show ?thesis
    proof (cases "k > bs")
      case kb: True
      have b: "diag_best a r (r + 1 - k, j + 1 - k, k)"
        using True old kb by (auto simp: diag_best_def)
      from fl kb have fl': "r \<in> set js \<or> ((N(int j \<mapsto> k)) (int r) = Some (run a r) \<and> run a r \<le> k)"
        by (simp add: max_def)
      from Cons.prems(6) kb have "inner_loop r 0 n M js (N(int j \<mapsto> k), r + 1 - k, j + 1 - k, k) = (N', best')"
        unfolding step by simp
      from Cons.IH[OF sorted' js' N1 b fl' this] show ?thesis .
    next
      case kb: False
      from fl kb have fl': "r \<in> set js \<or> ((N(int j \<mapsto> k)) (int r) = Some (run a r) \<and> run a r \<le> bs)"
        by (simp add: max_def)
      from Cons.prems(6) kb have "inner_loop r 0 n M js (N(int j \<mapsto> k), bi, bj, bs) = (N', best')"
        unfolding step by simp
      from Cons.IH[OF sorted' js' N1 Cons.prems(4) fl' this] show ?thesis .
    qed
  next
    case False
    have nk: "\<not> k > bs"
    proof (cases "r \<in> set js")
      case True
      with jlt have "j < r" by auto
      with old kj show ?thesis by (meson le_trans not_less)
    next
      case nin: False
      with False Cons.prems(5) have "run a r \<le> bs" by auto
      with kr show ?thesis by simp
    qed
    have fl': "r \<in> set js \<or> ((N(int j \<mapsto> k)) (int r) = Some (run a r) \<and> run a r \<le> bs)"
      using False Cons.prems(5) by auto
    from Cons.prems(6) nk have "inner_loop r 0 n M js (N(int j \<mapsto> k), bi, bj, bs) = (N', best')"
      unfolding step by simp
    from Cons.IH[OF sorted' js' N1 Cons.prems(4) fl' this] show ?thesis .
  qed
qed

lemma diag_j2len_Suc:
  assumes "diag_new a r N" "N (int r) = Some (run a r)"
  shows "diag_j2len a (Suc r) N"
  using assms unfolding diag_j2len_def diag_new_def run_before_def by simp

lemma diag_skip_row:
  assumes "chain_b a (a ! r) = None" "diag_best a r best"
  shows "diag_j2len a (Suc r) Map.empty" "diag_best a (Suc r) best"
proof -
  from assms(1) have z: "run a r = 0" by (simp add: run_eq)
  show "diag_j2len a (Suc r) Map.empty"
    unfolding diag_j2len_def run_before_def using z by simp
  obtain bi bj bs where b: "best = (bi, bj, bs)" by (cases best)
  show "diag_best a (Suc r) best"
    using assms(2) z unfolding b diag_best_def by (auto simp: less_Suc_eq)
qed

lemma outer_loop_row:
  "r < n \<Longrightarrow> outer_loop a b2j blo bhi [r..<n] (M, best) =
     outer_loop a b2j blo bhi [Suc r..<n]
       (inner_loop r blo bhi M (case b2j (a ! r) of None \<Rightarrow> [] | Some idxs \<Rightarrow> idxs)
          (Map.empty, best))"
  by (subst upt_conv_Cons) simp_all

lemma outer_loop_diag:
  assumes "diag_j2len a r M" "diag_best a r best" "n = length a"
  shows "\<exists>d s. outer_loop a (chain_b a) 0 n [r..<n] (M, best) = (d, d, s)"
  using assms
proof (induction "n - r" arbitrary: r M best)
  case 0
  then have e: "[r..<n] = []" by simp
  obtain bi bj bs where b: "best = (bi, bj, bs)" by (cases best)
  from "0.prems"(2) have "bi = bj" unfolding b diag_best_def by simp
  then show ?case unfolding e b by simp
next
  case (Suc m)
  from Suc.hyps(2) have lt: "r < n" and m: "m = n - Suc r" by arith+
  obtain bi bj bs where b: "best = (bi, bj, bs)" by (cases best)
  show ?case
  proof (cases "chain_b a (a ! r)")
    case None
    have j: "diag_j2len a (Suc r) Map.empty" by (rule diag_skip_row(1)[OF None Suc.prems(2)])
    have b': "diag_best a (Suc r) best" by (rule diag_skip_row(2)[OF None Suc.prems(2)])
    have "\<exists>d s. outer_loop a (chain_b a) 0 n [Suc r..<n] (Map.empty, best) = (d, d, s)"
      by (rule Suc.hyps(1)[OF m j b' Suc.prems(3)])
    moreover have "outer_loop a (chain_b a) 0 n [r..<n] (M, best) =
        outer_loop a (chain_b a) 0 n [Suc r..<n] (Map.empty, best)"
      by (simp only: outer_loop_row[OF lt] None option.case inner_loop.simps(1))
    ultimately show ?thesis by (simp only:)
  next
    case (Some idxs)
    from lt Suc.prems(3) have rl: "r < length a" by simp
    have js1: "sorted_wrt (<) idxs" by (rule chain_b_keys(1)[OF Some rl])
    have rin: "r \<in> set idxs" by (rule chain_b_keys(2)[OF Some rl])
    have js2: "\<forall>j\<in>set idxs. j < n \<and> a ! j = a ! r"
      unfolding Suc.prems(3) by (rule chain_b_keys(3)[OF Some rl])
    obtain N' best' where res: "inner_loop r 0 n M idxs (Map.empty, bi, bj, bs) = (N', best')"
      by (cases "inner_loop r 0 n M idxs (Map.empty, bi, bj, bs)") blast
    have key: "chain_b a (a ! r) \<noteq> None" unfolding Some by simp
    have N0: "diag_new a r Map.empty" by (simp add: diag_new_def)
    have fl: "r \<in> set idxs \<or> (Map.empty (int r) = Some (run a r) \<and> run a r \<le> bs)"
      using rin by (rule disjI1)
    have r1: "diag_new a r N' \<and> N' (int r) = Some (run a r) \<and> diag_best a (Suc r) best'"
      by (rule inner_loop_diag[OF Suc.prems(1) key js1 js2 N0 Suc.prems(2)[unfolded b] fl res])
    then have j: "diag_j2len a (Suc r) N'" and b': "diag_best a (Suc r) best'"
      using diag_j2len_Suc by blast+
    have "\<exists>d s. outer_loop a (chain_b a) 0 n [Suc r..<n] (N', best') = (d, d, s)"
      by (rule Suc.hyps(1)[OF m j b' Suc.prems(3)])
    moreover have "outer_loop a (chain_b a) 0 n [r..<n] (M, best) =
        outer_loop a (chain_b a) 0 n [Suc r..<n] (N', best')"
      by (simp only: outer_loop_row[OF lt] Some option.case b res)
    ultimately show ?thesis by (simp only:)
  qed
qed

lemma extend_left_diagonal:
  "extend_left a a 0 0 (\<lambda>elt. \<not> isbjunk elt) (d, d, s) = (0, 0, s + d)"
proof (induction d arbitrary: s)
  case 0
  show ?case by (subst extend_left.simps) simp
next
  case (Suc d)
  have "extend_left a a 0 0 (\<lambda>elt. \<not> isbjunk elt) (Suc d, Suc d, s) =
        extend_left a a 0 0 (\<lambda>elt. \<not> isbjunk elt) (d, d, s + 1)"
    by (subst extend_left.simps) (simp add: isbjunk_def)
  with Suc.IH[of "s + 1"] show ?case by simp
qed

lemma extend_right_diagonal:
  "s \<le> n \<Longrightarrow> extend_right a a n n (\<lambda>elt. \<not> isbjunk elt) (0, 0, s) = (0, 0, n)"
proof (induction "n - s" arbitrary: s)
  case 0
  then have "s = n" by simp
  then show ?case by (subst extend_right.simps) simp
next
  case (Suc m)
  then have lt: "s < n" by simp
  then have "extend_right a a n n (\<lambda>elt. \<not> isbjunk elt) (0, 0, s) =
        extend_right a a n n (\<lambda>elt. \<not> isbjunk elt) (0, 0, s + 1)"
    by (subst extend_right.simps) (simp add: isbjunk_def)
  moreover have "m = n - (s + 1)" "s + 1 \<le> n" using Suc.hyps(2) lt by auto
  ultimately show ?case using Suc.hyps(1)[of "s + 1"] by simp
qed

lemma find_longest_match_self:
  "find_longest_match a a 0 (length a) 0 (length a) = (0, 0, length a)"
proof -
  let ?n = "length a"
  have j0: "diag_j2len a 0 Map.empty" by (simp add: diag_j2len_def run_before_def)
  have b0: "diag_best a 0 (0, 0, 0)" by (simp add: diag_best_def)
  from outer_loop_diag[OF j0 b0 refl]
  obtain d s where o: "outer_loop a (chain_b a) 0 ?n [0..<?n] (Map.empty, 0, 0, 0) = (d, d, s)"
    by blast
  have "inv_best 0 0 ?n (max 0 ?n) (outer_loop a (chain_b a) 0 ?n [0..<?n] (Map.empty, 0, 0, 0))"
    by (rule outer_loop_bounds) (simp_all add: inv_j2len_empty inv_best_def)
  then have le: "s + d \<le> ?n" unfolding o inv_best_def by simp
  have "find_longest_match a a 0 ?n 0 ?n =
        extend_right a a ?n ?n (\<lambda>elt. \<not> isbjunk elt)
          (extend_left a a 0 0 (\<lambda>elt. \<not> isbjunk elt) (d, d, s))"
    by (simp only: find_longest_match_def Let_def o isbjunk_left isbjunk_right)
  also have "\<dots> = extend_right a a ?n ?n (\<lambda>elt. \<not> isbjunk elt) (0, 0, s + d)"
    by (simp only: extend_left_diagonal[of a d s])
  also have "\<dots> = (0, 0, ?n)" by (rule extend_right_diagonal[OF le])
  finally show ?thesis .
qed

lemma matching_loop_self:
  "matching_loop a a [(0, length a, 0, length a)] [] =
     (if length a = 0 then [] else [(0, 0, length a)])"
proof -
  have "matching_loop a a [(0, length a, 0, length a)] [] =
        (if length a \<noteq> 0 then matching_loop a a [] [(0, 0, length a)] else matching_loop a a [] [])"
    by (subst matching_loop.simps(2)) (simp add: find_longest_match_self)
  then show ?thesis by (simp add: matching_loop.simps(1))
qed

lemma get_matching_blocks_self:
  "get_matching_blocks a a =
     (if length a = 0 then [(0, 0, 0)] else [(0, 0, length a), (length a, length a, 0)])"
  unfolding get_matching_blocks_def Let_def matching_loop_self by simp

lemma get_opcodes_self:
  "get_opcodes a a = (if length a = 0 then [] else [(Equal, 0, length a, 0, length a)])"
  unfolding get_opcodes_def get_matching_blocks_self by (simp add: Let_def)

lemma align_two_self: "align_two A A = (A, A)"
  unfolding align_two_def get_opcodes_self by (simp add: slice_all)

lemma columns_same:
  "gap_free A \<Longrightarrow> concat (map column_output (zip A A)) = A \<and> printed_from idx (zip A A) = []"
proof (induction A arbitrary: idx)
  case Nil
  then show ?case by simp
next
  case (Cons t A)
  from Cons.prems have "t \<noteq> None" "gap_free A"
    unfolding gap_free_def by (metis list.set_intros(1), metis list.set_intros(2))
  with Cons.IH[of "idx + 1"] show ?case by auto
qed

section \<open>The claims\<close>

text \<open>
  C1. For every pair of token sequences \<open>A\<close> and \<open>B\<close> (of any length, possibly empty, with
  duplicates, and whether or not they hold \<^verbatim>\<open>None\<close>), the two lists returned by
  \<^verbatim>\<open>align_two(A, B)\<close> have the same length.
\<close>

theorem align_two_equal_length:
  "length (fst (align_two A B)) = length (snd (align_two A B))"
  by (rule align_two_length)

text \<open>
  C2. For gap-free \<open>A\<close> and \<open>B\<close>, removing the gap markers from the first list returned by
  \<^verbatim>\<open>align_two(A, B)\<close> gives back \<open>A\<close>, and from the second gives back \<open>B\<close>.
\<close>

theorem align_two_reconstructs:
  assumes "gap_free A" "gap_free B"
  shows "remove_gaps (fst (align_two A B)) = A \<and> remove_gaps (snd (align_two A B)) = B"
  using align_two_remove_gaps[of A B] remove_gaps_id[OF assms(1)] remove_gaps_id[OF assms(2)]
  by simp

theorem align_two_reconstructs_witness:
  "gap_free [Some (1::nat), Some 2, Some 3] \<and> gap_free [Some (1::nat), Some 3]
   \<and> remove_gaps (fst (align_two [Some (1::nat), Some 2, Some 3] [Some 1, Some 3]))
       = [Some 1, Some 2, Some 3]
   \<and> remove_gaps (snd (align_two [Some (1::nat), Some 2, Some 3] [Some 1, Some 3]))
       = [Some 1, Some 3]"
proof -
  have a: "gap_free [Some (1::nat), Some 2, Some 3]" by (simp add: gap_free_def)
  have b: "gap_free [Some (1::nat), Some 3]" by (simp add: gap_free_def)
  from align_two_reconstructs[OF a b] a b show ?thesis by simp
qed

text \<open>
  C3. In a column of the alignment where both sides hold a token and the two tokens
  differ, \<^verbatim>\<open>consensus_two\<close> puts the token of the left sequence into its result, at the
  position of that column among the columns that emit a token, and prints the line that
  names the column index and the two tokens. In particular
  \<^verbatim>\<open>consensus_two(["x"], ["y"])\<close> returns \<^verbatim>\<open>["x"]\<close>.
\<close>

theorem consensus_two_left_preference:
  assumes "idx < length (fst (align_two A B))"
    and "fst (align_two A B) ! idx = Some x" "snd (align_two A B) ! idx = Some y" "x \<noteq> y"
  shows "emitted_before (zip (fst (align_two A B)) (snd (align_two A B))) idx
           < length (fst (consensus_two A B))
         \<and> fst (consensus_two A B)
             ! emitted_before (zip (fst (align_two A B)) (snd (align_two A B))) idx = Some x
         \<and> Mismatch idx (Some x) (Some y) \<in> set (snd (consensus_two A B))
         \<and> fst (consensus_two [Some ''x''] [Some ''y'']) = [Some ''x'']"
proof -
  have "fst (align_two A B) ! idx \<noteq> None" using assms(2) by simp
  from consensus_two_left_tokens[OF assms(1) this] assms(2)
  have "emitted_before (zip (fst (align_two A B)) (snd (align_two A B))) idx
           < length (fst (consensus_two A B))"
    and "fst (consensus_two A B)
             ! emitted_before (zip (fst (align_two A B)) (snd (align_two A B))) idx = Some x"
    by simp_all
  moreover note consensus_two_mismatch_printed[OF assms]
  moreover have "fst (consensus_two [Some ''x''] [Some ''y'']) = [Some ''x'']" by code_simp
  ultimately show ?thesis by blast
qed

theorem consensus_two_left_preference_witness:
  "0 < length (fst (align_two [Some ''x''] [Some ''y'']))
   \<and> fst (align_two [Some ''x''] [Some ''y'']) ! 0 = Some ''x''
   \<and> snd (align_two [Some ''x''] [Some ''y'']) ! 0 = Some ''y''
   \<and> ''x'' \<noteq> ''y''
   \<and> fst (consensus_two [Some ''x''] [Some ''y''])
       ! emitted_before (zip (fst (align_two [Some ''x''] [Some ''y'']))
                             (snd (align_two [Some ''x''] [Some ''y'']))) 0 = Some ''x''
   \<and> Mismatch 0 (Some ''x'') (Some ''y'') \<in> set (snd (consensus_two [Some ''x''] [Some ''y'']))"
proof -
  have al: "align_two [Some ''x''] [Some ''y''] = ([Some ''x''], [Some ''y''])" by code_simp
  have h1: "0 < length (fst (align_two [Some ''x''] [Some ''y'']))" by (simp add: al)
  have h2: "fst (align_two [Some ''x''] [Some ''y'']) ! 0 = Some ''x''" by (simp add: al)
  have h3: "snd (align_two [Some ''x''] [Some ''y'']) ! 0 = Some ''y''" by (simp add: al)
  have h4: "''x'' \<noteq> ''y''" by simp
  from consensus_two_left_preference[OF h1 h2 h3 h4] h1 h2 h3 h4 show ?thesis by blast
qed

text \<open>
  C4. For all \<open>A\<close>, \<open>B\<close>, \<open>C\<close> the value returned by \<^verbatim>\<open>consensus_three(A, B, C)\<close> is
  the value returned by \<^verbatim>\<open>consensus_two(consensus_two(A, B), C)\<close>.
\<close>

theorem consensus_three_is_fold:
  "fst (consensus_three A B C) = fst (consensus_two (fst (consensus_two A B)) C)"
  by (simp add: consensus_three_def split: prod.splits)

text \<open>
  C5. For \<open>A = ["the","cat","sat"]\<close>, \<open>B = ["the","cat","sit"]\<close> and
  \<open>C = ["a","cat","sat"]\<close>, \<^verbatim>\<open>consensus_three(A, B, C)\<close> returns
  \<open>["the","cat","sat"]\<close>; it prints its two progress lines and one mismatch line in each
  merge.
\<close>

theorem consensus_three_the_cat_sat:
  "consensus_three [Some ''the'', Some ''cat'', Some ''sat'']
                   [Some ''the'', Some ''cat'', Some ''sit'']
                   [Some ''a'', Some ''cat'', Some ''sat'']
   = ([Some ''the'', Some ''cat'', Some ''sat''],
      [Text ''Merging first two transcripts...'',
       Mismatch 2 (Some ''sat'') (Some ''sit''),
       Text ''Merging consensus of first two with the third transcript...'',
       Mismatch 0 (Some ''the'') (Some ''a'')])"
  by code_simp

text \<open>
  C7. For gap-free \<open>A\<close> and \<open>B\<close>, no column of \<^verbatim>\<open>align_two(A, B)\<close> has the gap marker
  on both sides. Hence the branch of \<^verbatim>\<open>consensus_two\<close> that skips such a column is never
  taken: every column puts one token into the consensus.
\<close>

theorem align_two_no_double_gap:
  assumes "gap_free A" "gap_free B"
  shows "(None, None) \<notin> set (zip (fst (align_two A B)) (snd (align_two A B)))
         \<and> length (fst (consensus_two A B)) = length (fst (align_two A B))"
  using align_two_no_gap_gap[OF assms] consensus_two_no_skip[OF assms] by simp

theorem align_two_no_double_gap_witness:
  "gap_free [Some ''a'', Some ''b''] \<and> gap_free [Some ''b'', Some ''c'', Some ''d'']
   \<and> (None, None) \<notin> set (zip (fst (align_two [Some ''a'', Some ''b''] [Some ''b'', Some ''c'', Some ''d'']))
                                (snd (align_two [Some ''a'', Some ''b''] [Some ''b'', Some ''c'', Some ''d''])))
   \<and> length (fst (consensus_two [Some ''a'', Some ''b''] [Some ''b'', Some ''c'', Some ''d'']))
       = length (fst (align_two [Some ''a'', Some ''b''] [Some ''b'', Some ''c'', Some ''d'']))"
proof -
  have a: "gap_free [Some ''a'', Some ''b'']" by (simp add: gap_free_def)
  have b: "gap_free [Some ''b'', Some ''c'', Some ''d'']" by (simp add: gap_free_def)
  from align_two_no_double_gap[OF a b] a b show ?thesis by blast
qed

text \<open>
  C8. For every gap-free \<open>A\<close>, \<^verbatim>\<open>consensus_two(A, A)\<close> returns \<open>A\<close> and prints no
  mismatch line.
\<close>

theorem consensus_two_self:
  assumes "gap_free A"
  shows "consensus_two A A = (A, [])"
  using columns_same[OF assms, of 0] by (simp add: consensus_two_eq align_two_self)

theorem consensus_two_self_witness:
  "gap_free [Some ''the'', Some ''cat'', Some ''the'']
   \<and> consensus_two [Some ''the'', Some ''cat'', Some ''the''] [Some ''the'', Some ''cat'', Some ''the'']
       = ([Some ''the'', Some ''cat'', Some ''the''], [])"
proof -
  have a: "gap_free [Some ''the'', Some ''cat'', Some ''the'']" by (simp add: gap_free_def)
  from consensus_two_self[OF a] a show ?thesis by blast
qed

text \<open>
  C9. The empty sequence is an identity on both sides of \<^verbatim>\<open>consensus_two\<close>: for every
  gap-free \<open>A\<close>, \<^verbatim>\<open>consensus_two(A, [])\<close> and \<^verbatim>\<open>consensus_two([], A)\<close> both return
  \<open>A\<close>, and print nothing.
\<close>

theorem consensus_two_empty_identity:
  assumes "gap_free A"
  shows "consensus_two A [] = (A, []) \<and> consensus_two [] A = (A, [])"
  using columns_left_only[OF assms, of 0] columns_right_only[OF assms, of 0]
  by (simp add: consensus_two_eq align_two_Nil1 align_two_Nil2)

theorem consensus_two_empty_identity_witness:
  "gap_free [Some ''a'', Some ''b'']
   \<and> consensus_two [Some ''a'', Some ''b''] [] = ([Some ''a'', Some ''b''], [])
   \<and> consensus_two [] [Some ''a'', Some ''b''] = ([Some ''a'', Some ''b''], [])"
proof -
  have a: "gap_free [Some ''a'', Some ''b'']" by (simp add: gap_free_def)
  from consensus_two_empty_identity[OF a] a show ?thesis by blast
qed

text \<open>
  C10. The left input is kept whole, and a token of the right input is lost only in a
  column where both sides hold a token and the two differ. For gap-free \<open>A\<close> and \<open>B\<close>:
  reading the consensus at the output positions of the columns in which the left side
  holds a token gives exactly \<open>A\<close>; \<open>A\<close> is a subsequence of the consensus, which is
  therefore at least as long as \<open>A\<close>; the tokens of the right side of the alignment are
  exactly those of \<open>B\<close>, in order; and in every column whose right side holds a token
  \<open>y\<close>, the consensus holds \<open>y\<close> at the output position of that column, unless the left
  side holds another token \<open>x\<close>, which is then the one emitted, with the mismatch printed.
\<close>

theorem consensus_two_keeps_left:
  assumes "gap_free A" "gap_free B"
  shows "map (\<lambda>idx. fst (consensus_two A B)
                       ! emitted_before (zip (fst (align_two A B)) (snd (align_two A B))) idx)
             (filter (\<lambda>idx. fst (align_two A B) ! idx \<noteq> None) [0..<length (fst (align_two A B))]) = A
         \<and> subseq A (fst (consensus_two A B))
         \<and> length A \<le> length (fst (consensus_two A B))
         \<and> remove_gaps (snd (align_two A B)) = B
         \<and> (\<forall>idx y. idx < length (snd (align_two A B)) \<and> snd (align_two A B) ! idx = Some y \<longrightarrow>
               emitted_before (zip (fst (align_two A B)) (snd (align_two A B))) idx
                 < length (fst (consensus_two A B))
               \<and> (fst (consensus_two A B)
                     ! emitted_before (zip (fst (align_two A B)) (snd (align_two A B))) idx = Some y
                  \<or> (\<exists>x. x \<noteq> y \<and> fst (align_two A B) ! idx = Some x
                        \<and> fst (consensus_two A B)
                             ! emitted_before (zip (fst (align_two A B)) (snd (align_two A B))) idx
                           = Some x
                        \<and> Mismatch idx (Some x) (Some y) \<in> set (snd (consensus_two A B)))))"
proof -
  have "remove_gaps (snd (align_two A B)) = B"
    using align_two_remove_gaps(2)[of A B] remove_gaps_id[OF assms(2)] by simp
  with consensus_two_preserves_left[OF assms(1), of B]
    list_emb_length[of "(=)" A "fst (consensus_two A B)"]
    consensus_two_right_tokens[of _ A B]
  show ?thesis by blast
qed

theorem consensus_two_keeps_left_witness:
  "gap_free [Some ''a'', Some ''b'', Some ''c'']
   \<and> gap_free [Some ''a'', Some ''x'', Some ''c'', Some ''d'']
   \<and> 3 < length (snd (align_two [Some ''a'', Some ''b'', Some ''c'']
                                  [Some ''a'', Some ''x'', Some ''c'', Some ''d'']))
   \<and> snd (align_two [Some ''a'', Some ''b'', Some ''c'']
                     [Some ''a'', Some ''x'', Some ''c'', Some ''d'']) ! 3 = Some ''d''
   \<and> subseq [Some ''a'', Some ''b'', Some ''c'']
        (fst (consensus_two [Some ''a'', Some ''b'', Some ''c''] [Some ''a'', Some ''x'', Some ''c'', Some ''d'']))
   \<and> remove_gaps (snd (align_two [Some ''a'', Some ''b'', Some ''c'']
                                   [Some ''a'', Some ''x'', Some ''c'', Some ''d'']))
       = [Some ''a'', Some ''x'', Some ''c'', Some ''d'']
   \<and> fst (consensus_two [Some ''a'', Some ''b'', Some ''c'']
                         [Some ''a'', Some ''x'', Some ''c'', Some ''d''])
         ! emitted_before (zip (fst (align_two [Some ''a'', Some ''b'', Some ''c'']
                                               [Some ''a'', Some ''x'', Some ''c'', Some ''d'']))
                               (snd (align_two [Some ''a'', Some ''b'', Some ''c'']
                                               [Some ''a'', Some ''x'', Some ''c'', Some ''d'']))) 3
       = Some ''d''"
proof -
  let ?A = "[Some ''a'', Some ''b'', Some ''c'']"
  let ?B = "[Some ''a'', Some ''x'', Some ''c'', Some ''d'']"
  have a: "gap_free ?A" by (simp add: gap_free_def)
  have b: "gap_free ?B" by (simp add: gap_free_def)
  have al: "align_two ?A ?B = ([Some ''a'', Some ''b'', Some ''c'', None], ?B)"
    by code_simp
  have h1: "3 < length (snd (align_two ?A ?B))" by (simp add: al)
  have h2: "snd (align_two ?A ?B) ! 3 = Some ''d''" by (simp add: al)
  have l: "fst (align_two ?A ?B) ! 3 = None" by (simp add: al)
  note t = consensus_two_keeps_left[OF a b]
  from t have s: "subseq ?A (fst (consensus_two ?A ?B))"
    and r: "remove_gaps (snd (align_two ?A ?B)) = ?B" by blast+
  from t h1 h2 have "fst (consensus_two ?A ?B)
         ! emitted_before (zip (fst (align_two ?A ?B)) (snd (align_two ?A ?B))) 3 = Some ''d''
       \<or> (\<exists>x. x \<noteq> ''d'' \<and> fst (align_two ?A ?B) ! 3 = Some x)"
    by blast
  with l have "fst (consensus_two ?A ?B)
         ! emitted_before (zip (fst (align_two ?A ?B)) (snd (align_two ?A ?B))) 3 = Some ''d''"
    by simp
  with a b h1 h2 s r show ?thesis by blast
qed

end
